theory Spec2Isabelle
  imports Complex_Main "HOL-Library.Multiset"
begin

section \<open>JavaScript values\<close>

text \<open>
  An optional string field of a JavaScript object is \<open>None\<close> when the field is absent
  (\<open>undefined\<close>). Its truthiness, as tested by \<open>if (x)\<close>, \<open>!x\<close> and \<open>x || y\<close>:
  present and not the empty string.
\<close>

fun truthy :: "string option \<Rightarrow> bool" where
  "truthy None = False"
| "truthy (Some s) = (s \<noteq> [])"

section \<open>Asynchronous utilities: retry (asyncUtils)\<close>








section \<open>Asynchronous utilities: withTimeout (asyncUtils)\<close>

text \<open>
  Promises settle once. \<open>withTimeout\<close> races the operation's promise against a timer
  whose callback rejects with \<open>new Error(timeoutMessage)\<close>. What decides the race is
  the order in which the two events reach the event loop, so the model is driven by that
  order: the operation settling before the duration elapses is the event
  \<open>OperationSettles\<close> coming before \<open>TimerFires\<close>. The state keeps the wrapper
  promise returned by \<open>Promise.race\<close> and the operation's own promise.
\<close>

datatype ('e, 'a) settlement = Fulfilled 'a | Rejected 'e

datatype ('e, 'a) promise_state = Pending | Settled "('e, 'a) settlement"

datatype 'e timeout_failure = OperationError 'e | TimeoutError string

datatype ('e, 'a) race_event = OperationSettles "('e, 'a) settlement" | TimerFires

record ('e, 'a) timeout_state =
  wrapper :: "('e timeout_failure, 'a) promise_state"
  operation :: "('e, 'a) promise_state"

fun settle :: "('e, 'a) promise_state \<Rightarrow> ('e, 'a) settlement \<Rightarrow> ('e, 'a) promise_state" where
  "settle Pending s = Settled s"
| "settle (Settled s0) s = Settled s0"

fun pass_through :: "('e, 'a) settlement \<Rightarrow> ('e timeout_failure, 'a) settlement" where
  "pass_through (Fulfilled v) = Fulfilled v"
| "pass_through (Rejected e) = Rejected (OperationError e)"

fun withTimeout_step ::
  "string \<Rightarrow> ('e, 'a) timeout_state \<Rightarrow> ('e, 'a) race_event \<Rightarrow> ('e, 'a) timeout_state" where
  "withTimeout_step timeoutMessage st (OperationSettles s) =
     (if operation st = Pending
      then st\<lparr>operation := Settled s, wrapper := settle (wrapper st) (pass_through s)\<rparr>
      else st)"
| "withTimeout_step timeoutMessage st TimerFires =
     st\<lparr>wrapper := settle (wrapper st) (Rejected (TimeoutError timeoutMessage))\<rparr>"

definition withTimeout :: "string \<Rightarrow> ('e, 'a) race_event list \<Rightarrow> ('e, 'a) timeout_state" where
  "withTimeout timeoutMessage events =
     foldl (withTimeout_step timeoutMessage) \<lparr>wrapper = Pending, operation = Pending\<rparr> events"

section \<open>Asynchronous utilities: concurrentLimit (asyncUtils)\<close>

text \<open>
  A step model of \<open>concurrentLimit\<close> on the event loop. The task list gives the outcome
  of each task, \<open>Inl e\<close> for a rejection and \<open>Inr v\<close> for a value; when each task
  settles is decided by the schedule, a list of events. \<open>Settles i\<close> is the moment the
  promise of task \<open>i\<close> has settled and its \<open>cleanUp\<close> reaction has run: the promise
  leaves \<open>executing\<close>, and a pending \<open>Promise.race\<close> or \<open>Promise.all\<close> takes notice.
  \<open>Resumes\<close> is the continuation of the \<open>for\<close> loop after \<open>await Promise.race\<close>; other
  promises may settle between the race's settlement and the continuation. Events that
  cannot happen in a state (a task that is not in flight, a continuation that is not
  due) leave it unchanged.

  The state keeps \<open>results\<close> (the promises pushed so far, by task index),
  \<open>executing\<close>, the indices of the settled promises, and where the function stands:
  inside \<open>await Promise.race(executing)\<close> (with the race's outcome once it has
  settled), inside \<open>Promise.all(results)\<close>, or done with the outcome of the returned
  promise.
\<close>

datatype ('e, 'a) cl_result = AllFulfilled "'a list" | RejectedBy 'e

datatype ('e, 'a) cl_phase =
    Running
  | AwaitRace "('e + 'a) option"
  | AwaitAll
  | Done "('e, 'a) cl_result"

record ('e, 'a) cl_state =
  results :: "nat list"
  executing :: "nat list"
  finished :: "nat list"
  phase :: "('e, 'a) cl_phase"

datatype cl_event = Settles nat | Resumes

text \<open>
  \<open>Promise.all(results)\<close> at the moment it is called: it rejects with the first promise,
  in array order, that has already rejected, fulfils if all have fulfilled, and waits
  otherwise.
\<close>

definition promise_all :: "('e + 'a) list \<Rightarrow> ('e, 'a) cl_state \<Rightarrow> ('e, 'a) cl_state" where
  "promise_all tasks st =
     (case filter (\<lambda>i. i \<in> set (finished st) \<and> isl (tasks ! i)) (results st) of
        i # rest \<Rightarrow> st\<lparr>phase := Done (RejectedBy (projl (tasks ! i)))\<rparr>
      | [] \<Rightarrow>
          if executing st = []
          then st\<lparr>phase := Done (AllFulfilled (map (\<lambda>i. projr (tasks ! i)) (results st)))\<rparr>
          else st\<lparr>phase := AwaitAll\<rparr>)"

text \<open>
  The \<open>for\<close> loop from its current position up to the next \<open>await\<close>: the next task is
  wrapped, pushed to \<open>results\<close> and added to \<open>executing\<close>; the loop waits for the race
  when \<open>executing.size >= concurrency\<close>; after the last task comes \<open>Promise.all\<close>.
\<close>

function cl_loop :: "('e + 'a) list \<Rightarrow> nat \<Rightarrow> ('e, 'a) cl_state \<Rightarrow> ('e, 'a) cl_state" where
  "cl_loop tasks concurrency st =
     (if length (results st) < length tasks
      then (if concurrency \<le> Suc (length (executing st))
            then st\<lparr>results := results st @ [length (results st)],
                    executing := executing st @ [length (results st)],
                    phase := AwaitRace None\<rparr>
            else cl_loop tasks concurrency
                   (st\<lparr>results := results st @ [length (results st)],
                       executing := executing st @ [length (results st)]\<rparr>))
      else promise_all tasks st)"
  by pat_completeness auto
termination
  by (relation "measure (\<lambda>(tasks, concurrency, st). length tasks - length (results st))") auto

fun cl_step ::
  "('e + 'a) list \<Rightarrow> nat \<Rightarrow> ('e, 'a) cl_state \<Rightarrow> cl_event \<Rightarrow> ('e, 'a) cl_state" where
  "cl_step tasks concurrency st (Settles i) =
     (if i \<in> set (executing st)
      then (case phase st of
              AwaitRace None \<Rightarrow>
                st\<lparr>executing := removeAll i (executing st), finished := finished st @ [i],
                   phase := AwaitRace (Some (tasks ! i))\<rparr>
            | AwaitAll \<Rightarrow>
                (case tasks ! i of
                   Inl e \<Rightarrow>
                     st\<lparr>executing := removeAll i (executing st), finished := finished st @ [i],
                        phase := Done (RejectedBy e)\<rparr>
                 | Inr v \<Rightarrow>
                     if removeAll i (executing st) = []
                     then st\<lparr>executing := [], finished := finished st @ [i],
                             phase := Done (AllFulfilled (map (\<lambda>i. projr (tasks ! i)) (results st)))\<rparr>
                     else st\<lparr>executing := removeAll i (executing st),
                             finished := finished st @ [i]\<rparr>)
            | _ \<Rightarrow> st\<lparr>executing := removeAll i (executing st), finished := finished st @ [i]\<rparr>)
      else st)"
| "cl_step tasks concurrency st Resumes =
     (case phase st of
        AwaitRace (Some (Inr v)) \<Rightarrow> cl_loop tasks concurrency st
      | AwaitRace (Some (Inl e)) \<Rightarrow> st\<lparr>phase := Done (RejectedBy e)\<rparr>
      | _ \<Rightarrow> st)"

text \<open>\<open>if (concurrency <= 0) concurrency = 1\<close>, and an empty task list returns \<open>[]\<close> at once.\<close>

definition effective_limit :: "int \<Rightarrow> nat" where
  "effective_limit concurrency = (if concurrency \<le> 0 then 1 else nat concurrency)"

definition concurrentLimit_start :: "('e + 'a) list \<Rightarrow> int \<Rightarrow> ('e, 'a) cl_state" where
  "concurrentLimit_start tasks concurrency =
     (if tasks = []
      then \<lparr>results = [], executing = [], finished = [], phase = Done (AllFulfilled [])\<rparr>
      else cl_loop tasks (effective_limit concurrency)
             \<lparr>results = [], executing = [], finished = [], phase = Running\<rparr>)"

definition concurrentLimit ::
  "('e + 'a) list \<Rightarrow> int \<Rightarrow> cl_event list \<Rightarrow> ('e, 'a) cl_state" where
  "concurrentLimit tasks concurrency events =
     foldl (cl_step tasks (effective_limit concurrency)) (concurrentLimit_start tasks concurrency) events"

text \<open>
  What holds of the bookkeeping whatever the phase: tasks are started once each, in input
  order; every started task is either still in \<open>executing\<close> or has settled.
\<close>

definition in_input_order :: "nat list \<Rightarrow> bool" where
  "in_input_order rs = (rs = [0..<length rs])"

definition cl_base :: "nat \<Rightarrow> ('e, 'a) cl_state \<Rightarrow> bool" where
  "cl_base n st =
     (in_input_order (results st) \<and> length (results st) \<le> n
      \<and> distinct (executing st) \<and> distinct (finished st)
      \<and> set (executing st) \<union> set (finished st) = {0..<length (results st)}
      \<and> set (executing st) \<inter> set (finished st) = {})"

fun cl_phase_ok :: "('e + 'a) list \<Rightarrow> nat \<Rightarrow> ('e, 'a) cl_state \<Rightarrow> ('e, 'a) cl_phase \<Rightarrow> bool" where
  "cl_phase_ok tasks c st Running = False"
| "cl_phase_ok tasks c st (AwaitRace None) = (executing st \<noteq> [])"
| "cl_phase_ok tasks c st (AwaitRace (Some x)) =
     (length (executing st) < c \<and> (\<exists>i. i \<in> set (finished st) \<and> x = tasks ! i))"
| "cl_phase_ok tasks c st AwaitAll =
     (length (results st) = length tasks \<and> executing st \<noteq> []
      \<and> list_all (\<lambda>i. \<not> isl (tasks ! i)) (finished st))"
| "cl_phase_ok tasks c st (Done (AllFulfilled vs)) = (tasks = map Inr vs)"
| "cl_phase_ok tasks c st (Done (RejectedBy e)) =
     (\<exists>i. i \<in> set (finished st) \<and> tasks ! i = Inl e)"

definition cl_inv :: "('e + 'a) list \<Rightarrow> nat \<Rightarrow> ('e, 'a) cl_state \<Rightarrow> bool" where
  "cl_inv tasks c st =
     (cl_base (length tasks) st \<and> length (executing st) \<le> c
      \<and> (c \<noteq> 1 \<or> set (executing st) \<subseteq> {length (results st) - 1})
      \<and> cl_phase_ok tasks c st (phase st))"

text \<open>The distance of a run from its end: it shrinks with every useful event.\<close>

definition cl_measure :: "('e + 'a) list \<Rightarrow> ('e, 'a) cl_state \<Rightarrow> nat" where
  "cl_measure tasks st =
     (case phase st of
        Done r \<Rightarrow> 0
      | AwaitRace (Some x) \<Rightarrow> 3 * (length tasks - length (results st)) + 2 * length (executing st) + 2
      | _ \<Rightarrow> 3 * (length tasks - length (results st)) + 2 * length (executing st) + 1)"

fun is_done :: "('e, 'a) cl_phase \<Rightarrow> bool" where
  "is_done (Done r) = True"
| "is_done _ = False"

text \<open>Three tasks that succeed, and a list whose first task fails.\<close>

definition three_tasks :: "(string + nat) list" where
  "three_tasks = [Inr 10, Inr 20, Inr 30]"

definition failing_first :: "(string + nat) list" where
  "failing_first = [Inl ''boom'', Inr 1]"

section \<open>Checkers: BaseChecker.run and CheckerManager (baseChecker.js, checkerManager.js)\<close>

text \<open>
  The envelope every checker returns. \<open>success\<close> is \<open>None\<close> when the object has no
  such field; the checker-specific payload is the record's extension. Timestamps, timers
  and logging are left out. What a call against the page does is given from outside:
  \<open>Inl message\<close> is a thrown \<open>Error\<close> with that message, \<open>Inr r\<close> the returned object.
\<close>

record check_result =
  checker :: string
  pageName :: string
  success :: "bool option"
  error :: "string option"

record checker_obj =
  checker_name :: string
  getPriority :: int
  run :: "string \<Rightarrow> string + check_result"

text \<open>
  \<open>BaseChecker.run\<close>: the result of \<open>executeCheck\<close> gets its metadata and
  \<open>success = !result.error\<close>; an exception becomes an error result. It never throws.
\<close>

definition BaseChecker_run ::
  "string \<Rightarrow> (string \<Rightarrow> string + check_result) \<Rightarrow> string \<Rightarrow> string + check_result" where
  "BaseChecker_run this_name executeCheck page =
     (case executeCheck page of
        Inr result \<Rightarrow>
          Inr (result\<lparr>checker := this_name, pageName := page,
                       success := Some (\<not> truthy (error result))\<rparr>)
      | Inl message \<Rightarrow>
          Inr \<lparr>checker = this_name, pageName = page, success = Some False,
               error = Some message\<rparr>)"

text \<open>A checker derived from \<open>BaseChecker\<close>: only \<open>executeCheck\<close> and the priority vary.\<close>

definition base_checker ::
  "string \<Rightarrow> int \<Rightarrow> (string \<Rightarrow> string + check_result) \<Rightarrow> checker_obj" where
  "base_checker this_name priority executeCheck =
     \<lparr>checker_name = this_name, getPriority = priority,
      run = BaseChecker_run this_name executeCheck\<rparr>"

definition runSingleCheck :: "checker_obj \<Rightarrow> string \<Rightarrow> check_result" where
  "runSingleCheck c page =
     (case run c page of
        Inr result \<Rightarrow> result
      | Inl message \<Rightarrow>
          \<lparr>checker = checker_name c, pageName = page, success = Some False,
           error = Some message\<rparr>)"

record check_summary =
  totalChecks :: nat
  passed :: nat
  failed :: nat
  errors :: nat
  successRate :: int

record page_checks =
  checks_pageName :: string
  checks :: "string \<rightharpoonup> check_result"
  summary :: check_summary

definition processCheckResult :: "page_checks \<Rightarrow> string \<Rightarrow> check_result \<Rightarrow> page_checks" where
  "processCheckResult res checkerName result =
     (let res' = res\<lparr>checks := (checks res)(checkerName \<mapsto> result)\<rparr>;
          s = summary res'
      in if success result = Some False
         then (if truthy (error result)
               then res'\<lparr>summary := s\<lparr>errors := errors s + 1\<rparr>\<rparr>
               else res'\<lparr>summary := s\<lparr>failed := failed s + 1\<rparr>\<rparr>)
         else res'\<lparr>summary := s\<lparr>passed := passed s + 1\<rparr>\<rparr>)"

text \<open>\<open>Math.round\<close> rounds to the nearest integer, halves upwards, as \<open>round\<close> does.\<close>

definition final_summary :: "page_checks \<Rightarrow> page_checks" where
  "final_summary res =
     res\<lparr>summary := (summary res)\<lparr>successRate :=
        (if totalChecks (summary res) > 0
         then round (real (passed (summary res)) / real (totalChecks (summary res)) * 100)
         else 0)\<rparr>\<rparr>"

datatype 'a completion = Unfinished | Threw string | Returned 'a

text \<open>
  \<open>runAllChecks\<close>. The checkers are sorted by priority (the sort of an array is stable).
  With \<open>maxConcurrency || 3\<close> above 1 the calls go through \<open>concurrentLimit\<close>, whose
  run is driven by the event schedule, and the results are processed by index once it
  has returned; otherwise the checkers run one after the other.
\<close>

definition runAllChecks ::
  "checker_obj list \<Rightarrow> int \<Rightarrow> cl_event list \<Rightarrow> string \<Rightarrow> page_checks completion" where
  "runAllChecks checkers maxConcurrency events page =
     (let res0 = \<lparr>checks_pageName = page, checks = Map.empty,
                   summary = \<lparr>totalChecks = length checkers, passed = 0, failed = 0,
                              errors = 0, successRate = 0\<rparr>\<rparr>;
          sortedCheckers = sort_key getPriority checkers;
          concurrency = (if maxConcurrency = 0 then 3 else maxConcurrency)
      in if concurrency > 1
         then (case phase (concurrentLimit
                            (map (\<lambda>c. Inr (runSingleCheck c page) :: string + check_result)
                               sortedCheckers)
                            concurrency events) of
                 Done (AllFulfilled checkResults) \<Rightarrow>
                   Returned (final_summary
                     (foldl (\<lambda>res (result, index).
                               processCheckResult res (checker_name (sortedCheckers ! index)) result)
                        res0 (zip checkResults [0..<length checkResults])))
               | Done (RejectedBy e) \<Rightarrow> Threw e
               | _ \<Rightarrow> Unfinished)
         else Returned (final_summary
                (foldl (\<lambda>res c. processCheckResult res (checker_name c) (runSingleCheck c page))
                   res0 sortedCheckers)))"

text \<open>The three classes of results the summary counts.\<close>

definition is_error_result :: "check_result \<Rightarrow> bool" where
  "is_error_result r = (success r = Some False \<and> truthy (error r))"

definition is_failed_result :: "check_result \<Rightarrow> bool" where
  "is_failed_result r = (success r = Some False \<and> \<not> truthy (error r))"

definition is_passed_result :: "check_result \<Rightarrow> bool" where
  "is_passed_result r = (success r \<noteq> Some False)"

text \<open>What \<open>runAllChecks\<close> returns when the checkers run one after the other.\<close>

definition sequential_checks :: "checker_obj list \<Rightarrow> string \<Rightarrow> page_checks" where
  "sequential_checks cs page =
     final_summary
       (foldl (\<lambda>res c. processCheckResult res (checker_name c) (runSingleCheck c page))
          \<lparr>checks_pageName = page, checks = Map.empty,
           summary = \<lparr>totalChecks = length cs, passed = 0, failed = 0, errors = 0,
                      successRate = 0\<rparr>\<rparr>
          (sort_key getPriority cs))"




text \<open>A checker derived from \<open>BaseChecker\<close> whose check throws \<open>new Error('')\<close>.\<close>

definition empty_message_checker :: checker_obj where
  "empty_message_checker = base_checker ''ZoomChecker'' 3 (\<lambda>page. Inl [])"

section \<open>Accessibility-tree checker: landmarks (accessibilityTreeChecker.js)\<close>

text \<open>
  A node of the accessibility snapshot. Absent fields of the JavaScript object are
  \<open>None\<close>; an absent \<open>children\<close> array is the empty list (the code only tests it
  for truthiness and takes its length with a default of 0).
\<close>

datatype axnode = AxNode (ax_role: "string option") (ax_name: "string option")
  (ax_level: "nat option") (ax_children: "axnode list")

record landmark =
  role :: string
  name :: "string option"
  level :: nat
  children :: nat

record landmark_issue =
  issue_type :: string
  issue_landmark :: string
  severity :: string

record landmarks_result =
  present :: "landmark list"
  missing :: "string list"
  multiples :: "(string \<times> nat) list"
  issues :: "landmark_issue list"
  score :: int

definition requiredLandmarks :: "string list" where
  "requiredLandmarks = [''banner'', ''main'', ''navigation'', ''complementary'', ''contentinfo'']"

definition landmarkRoles :: "string list" where
  "landmarkRoles = [''banner'', ''main'', ''navigation'', ''complementary'', ''contentinfo'',
                    ''region'', ''search'', ''form'']"

text \<open>\<open>extractLandmarks\<close>: pre-order walk pushing every node whose role is a landmark role.\<close>

fun extractLandmarks :: "axnode \<Rightarrow> landmark list" where
  "extractLandmarks (AxNode r n l cs) =
     (if truthy r \<and> the r \<in> set landmarkRoles
      then [\<lparr>role = the r, name = n, level = (case l of None \<Rightarrow> 0 | Some k \<Rightarrow> k),
             children = length cs\<rparr>]
      else [])
     @ concat (map extractLandmarks cs)"

text \<open>The snapshot itself may be null: \<open>if (!axTree) return result\<close>.\<close>

fun extractLandmarks_root :: "axnode option \<Rightarrow> landmark list" where
  "extractLandmarks_root None = []"
| "extractLandmarks_root (Some t) = extractLandmarks t"

text \<open>White space removed by \<open>String.prototype.trim\<close>, as far as 8-bit characters go.\<close>

definition js_whitespace :: "char \<Rightarrow> bool" where
  "js_whitespace c = (c \<in> set [CHR 0x09, CHR 0x0A, CHR 0x0B, CHR 0x0C, CHR 0x0D, CHR 0x20, CHR 0xA0])"

definition trim_is_empty :: "string \<Rightarrow> bool" where
  "trim_is_empty s = list_all js_whitespace s"

definition checkLandmarkAccessibility :: "landmark \<Rightarrow> landmark_issue list" where
  "checkLandmarkAccessibility lm =
     (if \<not> truthy (name lm) \<or> trim_is_empty (the (name lm))
      then [\<lparr>issue_type = ''missing-name'', issue_landmark = role lm, severity = ''high''\<rparr>]
      else [])
     @ (if role lm = ''main'' \<and> children lm = 0
        then [\<lparr>issue_type = ''empty-main'', issue_landmark = role lm, severity = ''medium''\<rparr>]
        else [])"

definition calculateLandmarkScore ::
  "landmark list \<Rightarrow> string list \<Rightarrow> landmark_issue list \<Rightarrow> int" where
  "calculateLandmarkScore landmarks missingRequired landmarkIssues =
     (let score = 100;
          score = score - int (length missingRequired) * 20;
          score = score - int (length landmarkIssues) * 10;
          score = (if length landmarks \<ge> 3 then score + 10 else score)
      in max 0 (min 100 score))"

text \<open>
  \<open>checkLandmarks\<close>. The keys of \<open>landmarkCounts\<close> are enumerated in insertion order,
  that is in order of first occurrence of each role.
\<close>

definition checkLandmarks :: "axnode option \<Rightarrow> landmarks_result" where
  "checkLandmarks axTree =
     (let landmarks = extractLandmarks_root axTree;
          presentLandmarks = map role landmarks;
          missingRequired = filter (\<lambda>r. r \<notin> set presentLandmarks) requiredLandmarks;
          multipleLandmarks =
            filter (\<lambda>(r, c). c > 1 \<and> r \<noteq> ''navigation'')
              (map (\<lambda>r. (r, count_list presentLandmarks r)) (rev (remdups (rev presentLandmarks))));
          landmarkIssues = concat (map checkLandmarkAccessibility landmarks)
      in \<lparr>present = landmarks, missing = missingRequired, multiples = multipleLandmarks,
          issues = landmarkIssues,
          score = calculateLandmarkScore landmarks missingRequired landmarkIssues\<rparr>)"

text \<open>A page whose snapshot holds exactly three of the five required landmarks, all named.\<close>

definition three_landmark_page :: axnode where
  "three_landmark_page = AxNode (Some ''WebArea'') (Some ''page'') None
     [AxNode (Some ''banner'') (Some ''Top'') None [],
      AxNode (Some ''main'') (Some ''Content'') None [AxNode (Some ''text'') (Some ''hi'') None []],
      AxNode (Some ''navigation'') (Some ''Menu'') None []]"

section \<open>Zoom checker (zoomChecker.js) and the legacy zoom check\<close>






















section \<open>Rule-engine scan with fallback (axeScanner.js, legacyScanner.js)\<close>

text \<open>
  The result of a scan. The entries of the four arrays are kept by their rule ids; the
  engine always returns the four arrays. The two fallback tags are \<open>False\<close> while the
  object does not carry them. Timestamps are left out.
\<close>

record axe_result =
  violations :: "string list"
  passes :: "string list"
  incomplete :: "string list"
  inapplicable :: "string list"
  url :: "string option"
  axe_pageName :: "string option"
  axe_error :: "string option"
  usedLegacyFallback :: bool
  failedFallback :: bool






text \<open>
  The test of \<open>runAxeScan\<close> on the primary's outcome: the call threw, returned nothing, or
  returned a result with a truthy \<open>error\<close>; then it throws the error it falls back on.
\<close>

definition modern_outcome :: "string + axe_result option \<Rightarrow> string + axe_result" where
  "modern_outcome modern =
     (case modern of
        Inl message \<Rightarrow> Inl message
      | Inr None \<Rightarrow> Inl ''Modern axe scan returned no data''
      | Inr (Some modernResult) \<Rightarrow>
          if truthy (axe_error modernResult) then Inl (the (axe_error modernResult))
          else Inr modernResult)"


text \<open>
  \<open>TestEngine.runAxeScan\<close>. The result type keeps a place for a thrown error, so that
  not throwing is something to prove.
\<close>

definition runAxeScan ::
  "string + axe_result option \<Rightarrow> string + axe_result \<Rightarrow> string \<Rightarrow> string + axe_result" where
  "runAxeScan modern legacy page =
     (case modern_outcome modern of
        Inr modernResult \<Rightarrow> Inr modernResult
      | Inl message \<Rightarrow>
          (case legacy of
             Inr legacyResult \<Rightarrow> Inr (legacyResult\<lparr>usedLegacyFallback := True\<rparr>)
           | Inl legacyMessage \<Rightarrow>
               Inr \<lparr>violations = [], passes = [], incomplete = [], inapplicable = [],
                    url = Some page, axe_pageName = Some page, axe_error = Some legacyMessage,
                    usedLegacyFallback = False, failedFallback = True\<rparr>))"




section \<open>Test engine: pages, phases and the suite (TestEngine)\<close>

text \<open>
  The run aggregate \<open>testResults\<close> and the engine's single-flight flag. \<open>tr_success\<close> is
  \<open>None\<close> until a run has set it. An error record keeps its phase, its message and the
  page context; stacks, timestamps and durations are left out. The extra-check result of
  a page is kept by what \<open>processPage\<close> reads of it.
\<close>

record error_record =
  err_phase :: string
  err_message :: string
  err_page :: "string option"
  err_selector :: "string option"

record warning_record =
  warn_type :: string
  warn_page :: "string option"
  warn_file :: "string option"

record extra_result =
  extra_pageName :: string
  keyboardFocus_problems :: nat
  keyboardFocus_screenshots :: "string list"

record test_results =
  axeResults :: "axe_result list"
  extraResults :: "extra_result list"
  screenshots :: "string list"
  tr_errors :: "error_record list"
  tr_warnings :: "warning_record list"
  tr_success :: "bool option"

record engine =
  testResults :: test_results
  isRunning :: bool

record page_spec =
  page_name :: string
  page_selector :: string

text \<open>
  What the application answers while one page is processed: the navigation click and
  waits (which may throw), the emergency screenshot (a file or nothing), the two scans,
  and \<open>runExtraChecks\<close>.
\<close>

record page_env =
  navigation_throws :: "string option"
  emergencyScreenshot :: "string option"
  modernScan :: "string + axe_result option"
  legacyScan :: "string + axe_result"
  extraChecks :: "string + extra_result"

definition logError ::
  "string \<Rightarrow> string \<Rightarrow> string option \<Rightarrow> string option \<Rightarrow> test_results \<Rightarrow> test_results" where
  "logError ph message pg sel tr =
     tr\<lparr>tr_errors := tr_errors tr @
          [\<lparr>err_phase = ph, err_message = message, err_page = pg, err_selector = sel\<rparr>]\<rparr>"

definition navigateToPage :: "page_env \<Rightarrow> page_spec \<Rightarrow> test_results \<Rightarrow> (string + unit) \<times> test_results" where
  "navigateToPage env pageConfig tr =
     (case navigation_throws env of
        None \<Rightarrow> (Inr (), tr)
      | Some message \<Rightarrow>
          (Inl message,
           case emergencyScreenshot env of
             Some file \<Rightarrow>
               tr\<lparr>tr_warnings := tr_warnings tr @
                    [\<lparr>warn_type = ''navigation_screenshot'',
                      warn_page = Some (page_name pageConfig), warn_file = Some file\<rparr>]\<rparr>
           | None \<Rightarrow> tr))"

text \<open>
  \<open>processPage\<close>: navigate, scan and push, run the extra checks and push, collect the
  screenshots; any error is logged with phase \<open>page_processing\<close> and thrown again.
\<close>

definition processPage :: "page_env \<Rightarrow> page_spec \<Rightarrow> test_results \<Rightarrow> (string + unit) \<times> test_results" where
  "processPage env pageConfig tr =
     (let failed_with = (\<lambda>message tr'.
            (Inl message,
             logError ''page_processing'' message (Some (page_name pageConfig))
               (Some (page_selector pageConfig)) tr'))
      in case navigateToPage env pageConfig tr of
           (Inl message, tr1) \<Rightarrow> failed_with message tr1
         | (Inr u, tr1) \<Rightarrow>
             (case runAxeScan (modernScan env) (legacyScan env) (page_name pageConfig) of
                Inl message \<Rightarrow> failed_with message tr1
              | Inr axeResult \<Rightarrow>
                  (let tr2 = tr1\<lparr>axeResults := axeResults tr1 @ [axeResult]\<rparr>
                   in case extraChecks env of
                        Inl message \<Rightarrow> failed_with message tr2
                      | Inr extraResult \<Rightarrow>
                          (let tr3 = tr2\<lparr>extraResults := extraResults tr2 @ [extraResult]\<rparr>
                           in (Inr (),
                               if keyboardFocus_problems extraResult > 0
                               then tr3\<lparr>screenshots := screenshots tr3
                                         @ keyboardFocus_screenshots extraResult\<rparr>
                               else tr3)))))"


text \<open>
  The sequential loop of \<open>scanningPhase\<close>: an error of a page is logged with phase
  \<open>page_scan\<close>, and thrown again unless \<open>continueOnError\<close> is set.
\<close>

fun scan_sequential ::
  "(string \<Rightarrow> page_env) \<Rightarrow> bool \<Rightarrow> page_spec list \<Rightarrow> test_results
     \<Rightarrow> (string + unit) \<times> test_results" where
  "scan_sequential env continueOnError [] tr = (Inr (), tr)"
| "scan_sequential env continueOnError (pg # pgs) tr =
     (case processPage (env (page_name pg)) pg tr of
        (Inr u, tr') \<Rightarrow> scan_sequential env continueOnError pgs tr'
      | (Inl message, tr') \<Rightarrow>
          (let tr'' = logError ''page_scan'' message (Some (page_name pg)) None tr'
           in if \<not> continueOnError then (Inl message, tr'')
              else scan_sequential env continueOnError pgs tr''))"

text \<open>
  The concurrent branch gives every page a task that catches its own error, logs it with
  phase \<open>page_scan\<close> and returns null. The tasks are run here one after the other in
  input order, which is the schedule \<open>concurrentLimit\<close> follows when each task settles
  before the next is started; the counts proved below do not depend on the schedule.
\<close>

fun scan_concurrent ::
  "(string \<Rightarrow> page_env) \<Rightarrow> page_spec list \<Rightarrow> test_results \<Rightarrow> test_results" where
  "scan_concurrent env [] tr = tr"
| "scan_concurrent env (pg # pgs) tr =
     (case processPage (env (page_name pg)) pg tr of
        (Inr u, tr') \<Rightarrow> scan_concurrent env pgs tr'
      | (Inl message, tr') \<Rightarrow>
          scan_concurrent env pgs (logError ''page_scan'' message (Some (page_name pg)) None tr'))"

record suite_env =
  validation_ok :: bool
  cleanupProcesses_throws :: "string option"
  launchApp_throws :: "string option"
  pagesToScan :: "page_spec list"
  getMainWindow_throws :: "string option"
  page_envs :: "string \<Rightarrow> page_env"
  generateAllReports :: "string + bool \<times> nat"
  closeApp_throws :: "string option"

record suite_options =
  concurrency_option :: int
  continueOnError_option :: bool

definition setupPhase :: "suite_env \<Rightarrow> test_results \<Rightarrow> (string + unit) \<times> test_results" where
  "setupPhase env tr =
     (let thrown =
            (if \<not> validation_ok env then Some ''Configuration validation failed''
             else case cleanupProcesses_throws env of
                    Some message \<Rightarrow> Some message
                  | None \<Rightarrow> launchApp_throws env)
      in case thrown of
           Some message \<Rightarrow> (Inl message, logError ''setup'' message None None tr)
         | None \<Rightarrow> (Inr (), tr))"

definition scanningPhase ::
  "suite_env \<Rightarrow> suite_options \<Rightarrow> test_results \<Rightarrow> (string + unit) \<times> test_results" where
  "scanningPhase env opts tr =
     (let failed_with = (\<lambda>message tr'. (Inl message, logError ''scanning'' message None None tr'))
      in if pagesToScan env = [] then failed_with ''No pages configured for scanning'' tr
         else case getMainWindow_throws env of
                Some message \<Rightarrow> failed_with message tr
              | None \<Rightarrow>
                  if concurrency_option opts = 1
                  then (case scan_sequential (page_envs env) (continueOnError_option opts)
                               (pagesToScan env) tr of
                          (Inl message, tr') \<Rightarrow> failed_with message tr'
                        | (Inr u, tr') \<Rightarrow> (Inr (), tr'))
                  else (Inr (), scan_concurrent (page_envs env) (pagesToScan env) tr))"

text \<open>The reporting and cleanup phases log their errors and never throw.\<close>

definition reportingPhase :: "suite_env \<Rightarrow> test_results \<Rightarrow> test_results" where
  "reportingPhase env tr =
     (case generateAllReports env of
        Inl message \<Rightarrow> logError ''reporting'' message None None tr
      | Inr (ok, failedCount) \<Rightarrow>
          if ok then tr
          else tr\<lparr>tr_warnings := tr_warnings tr @
                    [\<lparr>warn_type = ''report_generation'', warn_page = None, warn_file = None\<rparr>]\<rparr>)"

definition cleanupPhase :: "suite_env \<Rightarrow> test_results \<Rightarrow> test_results" where
  "cleanupPhase env tr =
     (case closeApp_throws env of
        Some message \<Rightarrow> logError ''cleanup'' message None None tr
      | None \<Rightarrow> tr)"

text \<open>
  \<open>runTestSuite\<close>: the single-flight guard throws; otherwise the four phases run, the
  catch block records an error of phase \<open>unknown\<close> and sets \<open>success = false\<close>, and the
  \<open>finally\<close> block clears the flag. The returned object is a copy of \<open>testResults\<close>.
\<close>

definition runTestSuite ::
  "suite_env \<Rightarrow> suite_options \<Rightarrow> engine \<Rightarrow> (string + test_results) \<times> engine" where
  "runTestSuite env opts eng =
     (if isRunning eng then (Inl ''Test suite is already running'', eng)
      else (let caught = (\<lambda>message tr.
                   tr\<lparr>tr_success := Some False,
                      tr_errors := tr_errors tr @
                        [\<lparr>err_phase = ''unknown'', err_message = message, err_page = None,
                          err_selector = None\<rparr>]\<rparr>);
                final =
                  (case setupPhase env (testResults eng) of
                     (Inl message, tr1) \<Rightarrow> caught message tr1
                   | (Inr u, tr1) \<Rightarrow>
                       (case scanningPhase env opts tr1 of
                          (Inl message, tr2) \<Rightarrow> caught message tr2
                        | (Inr u', tr2) \<Rightarrow>
                            (let tr4 = cleanupPhase env (reportingPhase env tr2)
                             in tr4\<lparr>tr_success := Some (tr_errors tr4 = [])\<rparr>)))
            in (Inr final, \<lparr>testResults = final, isRunning = False\<rparr>)))"

text \<open>
  The spec's end-to-end scenario: a fresh engine, two pages, page A scans cleanly, the
  navigation to page B throws; everything else works.
\<close>

definition fresh_engine :: engine where
  "fresh_engine =
     \<lparr>testResults = \<lparr>axeResults = [], extraResults = [], screenshots = [], tr_errors = [],
                      tr_warnings = [], tr_success = None\<rparr>,
      isRunning = False\<rparr>"

definition clean_scan :: "string \<Rightarrow> axe_result" where
  "clean_scan page =
     \<lparr>violations = [], passes = [''html-has-lang''], incomplete = [], inapplicable = [],
      url = Some page, axe_pageName = Some page, axe_error = None, usedLegacyFallback = False,
      failedFallback = False\<rparr>"

definition two_page_env :: "string \<Rightarrow> page_env" where
  "two_page_env page =
     \<lparr>navigation_throws = (if page = ''B'' then Some ''locator.click: Timeout'' else None),
      emergencyScreenshot = None,
      modernScan = Inr (Some (clean_scan page)),
      legacyScan = Inr (clean_scan page),
      extraChecks = Inr \<lparr>extra_pageName = page, keyboardFocus_problems = 0,
                         keyboardFocus_screenshots = []\<rparr>\<rparr>"

definition two_page_suite :: suite_env where
  "two_page_suite =
     \<lparr>validation_ok = True, cleanupProcesses_throws = None, launchApp_throws = None,
      pagesToScan = [\<lparr>page_name = ''A'', page_selector = ''#a''\<rparr>,
                     \<lparr>page_name = ''B'', page_selector = ''#b''\<rparr>],
      getMainWindow_throws = None, page_envs = two_page_env,
      generateAllReports = Inr (True, 0), closeApp_throws = None\<rparr>"


definition sequential_continue :: suite_options where
  "sequential_continue = \<lparr>concurrency_option = 1, continueOnError_option = True\<rparr>"

definition concurrent_continue :: suite_options where
  "concurrent_continue = \<lparr>concurrency_option = 3, continueOnError_option = True\<rparr>"

section \<open>Retry with backoff\<close>












section \<open>Timeout race\<close>

lemma withTimeout_step_wrapper_settled:
  "wrapper st = Settled s \<Longrightarrow> wrapper (withTimeout_step m st ev) = Settled s"
  by (cases ev) simp_all

lemma withTimeout_wrapper_settled:
  "wrapper st = Settled s \<Longrightarrow> wrapper (foldl (withTimeout_step m) st evs) = Settled s"
  by (induction evs arbitrary: st) (simp_all add: withTimeout_step_wrapper_settled)

lemma withTimeout_step_operation_settled:
  "operation st = Settled s \<Longrightarrow> operation (withTimeout_step m st ev) = Settled s"
  by (cases ev) simp_all

lemma withTimeout_operation_settled:
  "operation st = Settled s \<Longrightarrow> operation (foldl (withTimeout_step m) st evs) = Settled s"
  by (induction evs arbitrary: st) (simp_all add: withTimeout_step_operation_settled)

text \<open>
  Claim C5. If the operation settles before the timer fires, the wrapper settles with
  exactly the operation's outcome, value or rejection, whatever happens afterwards. If
  the timer fires first, the wrapper rejects with the timeout error and keeps it even
  when the operation settles later; the operation is not cancelled: its own promise
  still settles with its own outcome. Before either event the wrapper is pending.
\<close>

theorem withTimeout_race:
  "wrapper (withTimeout m (OperationSettles (Fulfilled v) # rest)) = Settled (Fulfilled v)
   \<and> wrapper (withTimeout m (OperationSettles (Rejected e) # rest))
       = Settled (Rejected (OperationError e))
   \<and> wrapper (withTimeout m (TimerFires # rest)) = Settled (Rejected (TimeoutError m))
   \<and> operation (withTimeout m (TimerFires # OperationSettles s # rest)) = Settled s
   \<and> wrapper (withTimeout m []) = Pending"
proof (intro conjI)
  show "wrapper (withTimeout m (OperationSettles (Fulfilled v) # rest)) = Settled (Fulfilled v)"
    unfolding withTimeout_def by (simp add: withTimeout_wrapper_settled)
  show "wrapper (withTimeout m (OperationSettles (Rejected e) # rest))
       = Settled (Rejected (OperationError e))"
    unfolding withTimeout_def by (simp add: withTimeout_wrapper_settled)
  show "wrapper (withTimeout m (TimerFires # rest)) = Settled (Rejected (TimeoutError m))"
    unfolding withTimeout_def by (simp add: withTimeout_wrapper_settled)
  show "operation (withTimeout m (TimerFires # OperationSettles s # rest)) = Settled s"
    unfolding withTimeout_def by (simp add: withTimeout_operation_settled)
  show "wrapper (withTimeout m []) = Pending"
    unfolding withTimeout_def by simp
qed

theorem withTimeout_race_witness:
  "wrapper (withTimeout ''Operation timed out''
      [TimerFires, OperationSettles (Fulfilled (7::nat) :: (string, nat) settlement)])
     = Settled (Rejected (TimeoutError ''Operation timed out''))
   \<and> operation (withTimeout ''Operation timed out''
      [TimerFires, OperationSettles (Fulfilled (7::nat) :: (string, nat) settlement)])
     = Settled (Fulfilled 7)
   \<and> wrapper (withTimeout ''Operation timed out''
      [OperationSettles (Rejected ''closed'' :: (string, nat) settlement), TimerFires])
     = Settled (Rejected (OperationError ''closed''))"
proof -
  let ?late = "OperationSettles (Fulfilled (7::nat) :: (string, nat) settlement)"
  note a = withTimeout_race [where m = "''Operation timed out''" and rest = "[?late]"
          and s = "Fulfilled 7 :: (string, nat) settlement" and v = "7::nat" and e = "''closed''"]
  note b = withTimeout_race [where m = "''Operation timed out''" and rest = "[]"
          and s = "Fulfilled 7 :: (string, nat) settlement" and v = "7::nat" and e = "''closed''"]
  note c = withTimeout_race [where m = "''Operation timed out''" and rest = "[TimerFires]"
          and s = "Fulfilled 7 :: (string, nat) settlement" and v = "7::nat" and e = "''closed''"]
  from a b c show ?thesis by blast
qed

section \<open>Bounded concurrency runner\<close>

declare cl_loop.simps [simp del]

lemma cl_base_add:
  assumes "cl_base n st" "length (results st) < n"
  shows "cl_base n (st\<lparr>results := results st @ [length (results st)],
                       executing := executing st @ [length (results st)]\<rparr>)"
    and "cl_base n (st\<lparr>results := results st @ [length (results st)],
                       executing := executing st @ [length (results st)], phase := p\<rparr>)"
proof -
  let ?k = "length (results st)"
  from assms(1) have r: "results st = [0..<?k]" and d1: "distinct (executing st)"
    and d2: "distinct (finished st)"
    and u: "set (executing st) \<union> set (finished st) = {0..<?k}"
    and i: "set (executing st) \<inter> set (finished st) = {}"
    unfolding cl_base_def in_input_order_def by blast+
  have k1: "?k \<notin> set (executing st)" and k2: "?k \<notin> set (finished st)" using u by auto
  have "results st @ [?k] = [0..<Suc ?k]" using r by (metis upt_Suc_append le0)
  hence r': "in_input_order (results st @ [?k])" by (simp add: in_input_order_def)
  have u': "insert ?k (set (executing st) \<union> set (finished st)) = {0..<Suc ?k}"
    unfolding u by (simp only: atLeast0_lessThan_Suc)
  show "cl_base n (st\<lparr>results := results st @ [?k], executing := executing st @ [?k]\<rparr>)"
    unfolding cl_base_def using r' d1 d2 u' i k1 k2 assms(2) by simp
  show "cl_base n (st\<lparr>results := results st @ [?k], executing := executing st @ [?k], phase := p\<rparr>)"
    unfolding cl_base_def using r' d1 d2 u' i k1 k2 assms(2) by simp
qed

lemma cl_base_settle:
  assumes "cl_base n st" "i \<in> set (executing st)"
  shows "cl_base n (st\<lparr>executing := removeAll i (executing st), finished := finished st @ [i]\<rparr>)"
    and "cl_base n (st\<lparr>executing := removeAll i (executing st), finished := finished st @ [i],
                       phase := p\<rparr>)"
proof -
  from assms(1) have r: "in_input_order (results st)" "length (results st) \<le> n"
    and d1: "distinct (executing st)"
    and d2: "distinct (finished st)"
    and u: "set (executing st) \<union> set (finished st) = {0..<length (results st)}"
    and i: "set (executing st) \<inter> set (finished st) = {}"
    unfolding cl_base_def by blast+
  have a: "i \<notin> set (finished st)" using i assms(2) by auto
  have b: "(set (executing st) - {i}) \<union> insert i (set (finished st)) = {0..<length (results st)}"
    using u assms(2) by auto
  have c: "(set (executing st) - {i}) \<inter> insert i (set (finished st)) = {}"
    using i by auto
  show "cl_base n (st\<lparr>executing := removeAll i (executing st), finished := finished st @ [i]\<rparr>)"
    unfolding cl_base_def using r d1 d2 a b c by (simp add: distinct_removeAll)
  show "cl_base n (st\<lparr>executing := removeAll i (executing st), finished := finished st @ [i],
                       phase := p\<rparr>)"
    unfolding cl_base_def using r d1 d2 a b c by (simp add: distinct_removeAll)
qed

lemma length_removeAll_less:
  "i \<in> set xs \<Longrightarrow> length (removeAll i xs) < length xs"
  by (induction xs) (auto simp: less_Suc_eq_le length_removeAll_less_eq)

lemma cl_base_index:
  "cl_base n st \<Longrightarrow> i \<in> set (executing st) \<or> i \<in> set (finished st) \<Longrightarrow> i < n"
  unfolding cl_base_def by (metis UnCI atLeastLessThan_iff order_less_le_trans)

lemma all_finished_values:
  assumes b: "cl_base (length tasks) st" and e: "executing st = []"
    and n: "length (results st) = length tasks"
    and ok: "list_all (\<lambda>i. \<not> isl (tasks ! i)) (finished st)"
  shows "tasks = map Inr (map (\<lambda>i. projr (tasks ! i)) (results st))"
proof -
  from b e n have f: "set (finished st) = {0..<length tasks}" and r: "results st = [0..<length tasks]"
    unfolding cl_base_def in_input_order_def by auto
  have "\<forall>i<length tasks. \<not> isl (tasks ! i)"
    using ok f by (auto simp: list_all_iff)
  hence "\<forall>i<length tasks. Inr (projr (tasks ! i)) = tasks ! i"
    by simp
  thus ?thesis unfolding r by (intro nth_equalityI) auto
qed

lemma promise_all_inv:
  assumes b: "cl_base (length tasks) st" and n: "\<not> length (results st) < length tasks"
    and l: "length (executing st) < c" and s: "c \<noteq> 1 \<or> set (executing st) \<subseteq> {length (results st) - 1}"
  shows "cl_inv tasks c (promise_all tasks st)"
proof -
  let ?rej = "filter (\<lambda>i. i \<in> set (finished st) \<and> isl (tasks ! i)) (results st)"
  from b n have n': "length (results st) = length tasks" unfolding cl_base_def by simp
  have bp: "cl_base (length tasks) (st\<lparr>phase := p\<rparr>)" for p
    using b unfolding cl_base_def by simp
  show ?thesis
  proof (cases ?rej)
    case (Cons i rest)
    hence "i \<in> set ?rej" by simp
    hence i: "i \<in> set (finished st)" "isl (tasks ! i)" by auto
    hence "tasks ! i = Inl (projl (tasks ! i))" by simp
    with i Cons b l s show ?thesis
      unfolding promise_all_def cl_inv_def using bp by auto
  next
    case Nil
    hence "\<forall>i\<in>set (results st). \<not> (i \<in> set (finished st) \<and> isl (tasks ! i))"
      by (simp add: filter_empty_conv)
    moreover from b have "set (finished st) \<subseteq> set (results st)"
      unfolding cl_base_def in_input_order_def by (metis Un_upper2 atLeast_upt set_upt)
    ultimately have ok: "list_all (\<lambda>i. \<not> isl (tasks ! i)) (finished st)"
      by (auto simp: list_all_iff)
    show ?thesis
    proof (cases "executing st = []")
      case True
      from all_finished_values[OF b True n' ok] Nil True b l s show ?thesis
        unfolding promise_all_def cl_inv_def using bp by auto
    next
      case False
      with Nil b l s n' ok show ?thesis
        unfolding promise_all_def cl_inv_def using bp by auto
    qed
  qed
qed

lemma cl_loop_inv:
  "cl_base (length tasks) st \<Longrightarrow> length (executing st) < c \<Longrightarrow>
   c \<noteq> 1 \<or> set (executing st) \<subseteq> {length (results st) - 1} \<Longrightarrow>
   cl_inv tasks c (cl_loop tasks c st)"
proof (induction tasks c st rule: cl_loop.induct)
  case (1 tasks c st)
  let ?k = "length (results st)"
  show ?case
  proof (cases "?k < length tasks")
    case False
    hence "cl_loop tasks c st = promise_all tasks st" by (subst cl_loop.simps) simp
    with promise_all_inv[OF 1(2) False 1(3) 1(4)] show ?thesis by simp
  next
    case True
    note add = cl_base_add[OF 1(2) True]
    show ?thesis
    proof (cases "c \<le> Suc (length (executing st))")
      case c: True
      have eq: "cl_loop tasks c st = st\<lparr>results := results st @ [?k],
                    executing := executing st @ [?k], phase := AwaitRace None\<rparr>"
        using True c by (subst cl_loop.simps) simp
      have "c = 1 \<Longrightarrow> executing st = []" using 1(3) by simp
      thus ?thesis unfolding eq cl_inv_def using add(2)[of "AwaitRace None"] c 1(3) by auto
    next
      case c: False
      have eq: "cl_loop tasks c st = cl_loop tasks c (st\<lparr>results := results st @ [?k],
                    executing := executing st @ [?k]\<rparr>)"
        using True c by (subst cl_loop.simps) simp
      have "c \<noteq> 1" using c by simp
      with 1(1)[OF True c add(1)] c show ?thesis unfolding eq by simp
    qed
  qed
qed


lemma cl_step_settle_inv:
  assumes inv: "cl_inv tasks c st" and i: "i \<in> set (executing st)"
  shows "cl_inv tasks c (cl_step tasks c st (Settles i))"
proof -
  from inv have b: "cl_base (length tasks) st" and l: "length (executing st) \<le> c"
    and s: "c \<noteq> 1 \<or> set (executing st) \<subseteq> {length (results st) - 1}"
    and p: "cl_phase_ok tasks c st (phase st)"
    unfolding cl_inv_def by blast+
  let ?ex = "removeAll i (executing st)"
  let ?st = "st\<lparr>executing := ?ex, finished := finished st @ [i]\<rparr>"
  note bs = cl_base_settle[OF b i]
  have l': "length ?ex < c" using length_removeAll_less[OF i] l by simp
  have s': "c \<noteq> 1 \<or> set ?ex \<subseteq> {length (results st) - 1}" using s by auto
  have common: "cl_inv tasks c (?st\<lparr>phase := q\<rparr>)" if "cl_phase_ok tasks c (?st\<lparr>phase := q\<rparr>) q" for q
    unfolding cl_inv_def using bs(2)[of q] l' s' that by simp
  have st_eq: "?st = ?st\<lparr>phase := phase st\<rparr>" by simp
  show ?thesis
  proof (cases "phase st")
    case Running
    with p show ?thesis by simp
  next
    case (AwaitRace x)
    show ?thesis
    proof (cases x)
      case None
      have "cl_inv tasks c (?st\<lparr>phase := AwaitRace (Some (tasks ! i))\<rparr>)"
        by (rule common) (use l' in auto)
      thus ?thesis using i AwaitRace None by simp
    next
      case (Some y)
      have "cl_inv tasks c (?st\<lparr>phase := AwaitRace (Some y)\<rparr>)"
        by (rule common) (use l' p AwaitRace Some in auto)
      moreover have "?st\<lparr>phase := AwaitRace (Some y)\<rparr> = ?st" using AwaitRace Some by simp
      ultimately show ?thesis using i AwaitRace Some by simp
    qed
  next
    case AwaitAll
    from p AwaitAll have n: "length (results st) = length tasks"
      and ok: "list_all (\<lambda>i. \<not> isl (tasks ! i)) (finished st)" by simp_all
    show ?thesis
    proof (cases "tasks ! i")
      case (Inl e)
      have "cl_inv tasks c (?st\<lparr>phase := Done (RejectedBy e)\<rparr>)"
        by (rule common) (use Inl in auto)
      thus ?thesis using i AwaitAll Inl by simp
    next
      case (Inr v)
      have ok': "list_all (\<lambda>i. \<not> isl (tasks ! i)) (finished st @ [i])"
        using ok Inr by simp
      show ?thesis
      proof (cases "?ex = []")
        case True
        let ?vs = "map (\<lambda>i. projr (tasks ! i)) (results st)"
        have "tasks = map Inr ?vs"
          using all_finished_values[OF bs(1)] True n ok' by simp
        hence "cl_inv tasks c (?st\<lparr>phase := Done (AllFulfilled ?vs)\<rparr>)"
          by (intro common) simp
        thus ?thesis using i AwaitAll Inr True by simp
      next
        case False
        have "cl_inv tasks c (?st\<lparr>phase := AwaitAll\<rparr>)"
          by (rule common) (use False n ok' in simp)
        moreover have "?st\<lparr>phase := AwaitAll\<rparr> = ?st" using AwaitAll by simp
        ultimately show ?thesis using i AwaitAll Inr False by simp
      qed
    qed
  next
    case (Done r)
    have "cl_inv tasks c (?st\<lparr>phase := Done r\<rparr>)"
    proof (rule common, cases r)
      case (AllFulfilled vs)
      with p Done show "cl_phase_ok tasks c (?st\<lparr>phase := Done r\<rparr>) (Done r)" by simp
    next
      case (RejectedBy e)
      with p Done show "cl_phase_ok tasks c (?st\<lparr>phase := Done r\<rparr>) (Done r)" by auto
    qed
    moreover have "?st\<lparr>phase := Done r\<rparr> = ?st" using Done by simp
    ultimately show ?thesis using i Done by simp
  qed
qed

lemma cl_step_inv:
  assumes inv: "cl_inv tasks c st"
  shows "cl_inv tasks c (cl_step tasks c st ev)"
proof (cases ev)
  case (Settles i)
  show ?thesis
  proof (cases "i \<in> set (executing st)")
    case True
    with cl_step_settle_inv[OF inv True] Settles show ?thesis by simp
  next
    case False
    with inv Settles show ?thesis by simp
  qed
next
  case Resumes
  from inv have b: "cl_base (length tasks) st" and l: "length (executing st) \<le> c"
    and s: "c \<noteq> 1 \<or> set (executing st) \<subseteq> {length (results st) - 1}"
    and p: "cl_phase_ok tasks c st (phase st)"
    unfolding cl_inv_def by blast+
  show ?thesis
  proof (cases "phase st")
    case (AwaitRace x)
    show ?thesis
    proof (cases x)
      case None
      with inv Resumes AwaitRace show ?thesis by simp
    next
      case (Some y)
      with p AwaitRace have l': "length (executing st) < c"
        and f: "\<exists>i. i \<in> set (finished st) \<and> y = tasks ! i" by simp_all
      show ?thesis
      proof (cases y)
        case (Inr v)
        with cl_loop_inv[OF b l' s] Resumes AwaitRace Some show ?thesis by simp
      next
        case (Inl e)
        have bp: "cl_base (length tasks) (st\<lparr>phase := Done (RejectedBy e)\<rparr>)"
          using b unfolding cl_base_def by simp
        have "cl_inv tasks c (st\<lparr>phase := Done (RejectedBy e)\<rparr>)"
          unfolding cl_inv_def using bp l s f Inl by auto
        with Resumes AwaitRace Some Inl show ?thesis by simp
      qed
    qed
  qed (use inv Resumes in simp_all)
qed

lemma effective_limit_pos: "0 < effective_limit concurrency"
  by (simp add: effective_limit_def)

lemma concurrentLimit_start_inv:
  "cl_inv tasks (effective_limit concurrency) (concurrentLimit_start tasks concurrency)"
proof (cases "tasks = []")
  case True
  thus ?thesis
    by (simp add: concurrentLimit_start_def cl_inv_def cl_base_def in_input_order_def)
next
  case False
  let ?st = "\<lparr>results = [], executing = [], finished = [], phase = Running\<rparr> :: ('a, 'b) cl_state"
  have b: "cl_base (length tasks) ?st" by (simp add: cl_base_def in_input_order_def)
  have l: "length (executing ?st) < effective_limit concurrency"
    using effective_limit_pos by simp
  have s: "effective_limit concurrency \<noteq> 1 \<or> set (executing ?st) \<subseteq> {length (results ?st) - 1}"
    by simp
  from cl_loop_inv[OF b l s] False show ?thesis
    by (simp add: concurrentLimit_start_def)
qed

lemma foldl_cl_step_inv:
  "cl_inv tasks c st \<Longrightarrow> cl_inv tasks c (foldl (cl_step tasks c) st evs)"
  by (induction evs arbitrary: st) (simp_all add: cl_step_inv)

lemma concurrentLimit_inv:
  "cl_inv tasks (effective_limit concurrency) (concurrentLimit tasks concurrency events)"
  unfolding concurrentLimit_def
  by (rule foldl_cl_step_inv) (rule concurrentLimit_start_inv)


lemma promise_all_measure:
  "cl_measure tasks (promise_all tasks st)
     \<le> 3 * (length tasks - length (results st)) + 2 * length (executing st) + 1"
  by (simp add: promise_all_def cl_measure_def split: list.splits)

lemma cl_loop_measure:
  "cl_measure tasks (cl_loop tasks c st)
     \<le> 3 * (length tasks - length (results st)) + 2 * length (executing st) + 1"
proof (induction tasks c st rule: cl_loop.induct)
  case (1 tasks c st)
  let ?k = "length (results st)"
  show ?case
  proof (cases "?k < length tasks")
    case False
    hence "cl_loop tasks c st = promise_all tasks st" by (subst cl_loop.simps) simp
    thus ?thesis using promise_all_measure[of tasks st] by simp
  next
    case True
    show ?thesis
    proof (cases "c \<le> Suc (length (executing st))")
      case c: True
      have eq: "cl_loop tasks c st = st\<lparr>results := results st @ [?k],
                    executing := executing st @ [?k], phase := AwaitRace None\<rparr>"
        using True c by (subst cl_loop.simps) simp
      show ?thesis unfolding eq using True by (simp add: cl_measure_def)
    next
      case c: False
      have eq: "cl_loop tasks c st = cl_loop tasks c (st\<lparr>results := results st @ [?k],
                    executing := executing st @ [?k]\<rparr>)"
        using True c by (subst cl_loop.simps) simp
      from 1(1)[OF True c] True show ?thesis unfolding eq by simp
    qed
  qed
qed

lemma cl_progress:
  assumes inv: "cl_inv tasks c st" and nd: "\<not> is_done (phase st)"
  shows "\<exists>ev. cl_measure tasks (cl_step tasks c st ev) < cl_measure tasks st"
proof -
  from inv have p: "cl_phase_ok tasks c st (phase st)" unfolding cl_inv_def by blast
  show ?thesis
  proof (cases "phase st")
    case Running
    with p show ?thesis by simp
  next
    case (Done r)
    with nd show ?thesis by simp
  next
    case AwaitAll
    with p obtain i where i: "i \<in> set (executing st)" by (cases "executing st") auto
    have "cl_measure tasks (cl_step tasks c st (Settles i)) < cl_measure tasks st"
      using i AwaitAll length_removeAll_less[OF i]
      by (cases "tasks ! i") (auto simp: cl_measure_def)
    thus ?thesis by blast
  next
    case (AwaitRace x)
    show ?thesis
    proof (cases x)
      case None
      with p AwaitRace obtain i where i: "i \<in> set (executing st)"
        by (cases "executing st") auto
      have "cl_measure tasks (cl_step tasks c st (Settles i)) < cl_measure tasks st"
        using i AwaitRace None length_removeAll_less[OF i] by (simp add: cl_measure_def)
      thus ?thesis by blast
    next
      case (Some y)
      have "cl_measure tasks (cl_step tasks c st Resumes) < cl_measure tasks st"
      proof (cases y)
        case (Inl e)
        with AwaitRace Some show ?thesis by (simp add: cl_measure_def)
      next
        case (Inr v)
        with AwaitRace Some cl_loop_measure[of tasks c st] show ?thesis
          by (simp add: cl_measure_def)
      qed
      thus ?thesis by blast
    qed
  qed
qed

lemma cl_completes:
  "cl_inv tasks c st \<Longrightarrow> \<exists>evs. is_done (phase (foldl (cl_step tasks c) st evs))"
proof (induction "cl_measure tasks st" arbitrary: st rule: less_induct)
  case less
  show ?case
  proof (cases "is_done (phase st)")
    case True
    hence "is_done (phase (foldl (cl_step tasks c) st []))" by simp
    thus ?thesis by blast
  next
    case False
    from cl_progress[OF less.prems False] obtain ev
      where ev: "cl_measure tasks (cl_step tasks c st ev) < cl_measure tasks st" by blast
    from less.hyps[OF ev cl_step_inv[OF less.prems]] obtain evs
      where "is_done (phase (foldl (cl_step tasks c) (cl_step tasks c st ev) evs))" by blast
    hence "is_done (phase (foldl (cl_step tasks c) st (ev # evs)))" by simp
    thus ?thesis by blast
  qed
qed

lemma cl_done_stays:
  "phase st = Done r \<Longrightarrow> phase (foldl (cl_step tasks c) st evs) = Done r"
proof (induction evs arbitrary: st)
  case Nil
  thus ?case by simp
next
  case (Cons ev evs)
  have "phase (cl_step tasks c st ev) = Done r"
    using Cons.prems by (cases ev) auto
  from Cons.IH[OF this] show ?case by simp
qed


lemma cl_done_results:
  "phase st = Done r \<Longrightarrow> results (foldl (cl_step tasks c) st evs) = results st"
proof (induction evs arbitrary: st)
  case Nil
  thus ?case by simp
next
  case (Cons ev evs)
  have "phase (cl_step tasks c st ev) = Done r \<and> results (cl_step tasks c st ev) = results st"
    using Cons.prems by (cases ev) auto
  with Cons.IH[of "cl_step tasks c st ev"] show ?case by simp
qed

text \<open>
  Claim C1, as the code has it. In every state of every run: at most \<open>limit\<close> tasks are
  in flight (a limit of 0 or less counts as 1); the tasks in flight are those started
  and not yet settled; tasks are started once each, in input order; with limit 1 only
  the task started last can be unsettled, so each task starts after all earlier ones
  have settled. If the call fulfils, every task has succeeded and the result lists the
  values in input order. If it rejects, it does so with the error of a task that failed:
  the failure does not fill a result slot, and from then on no further task is started.
  Every run can be completed; when all tasks succeed it can be completed to the list of
  their values; a settled call stays settled.
\<close>

theorem concurrentLimit_contract:
  "length (executing (concurrentLimit tasks concurrency events)) \<le> effective_limit concurrency
   \<and> set (executing (concurrentLimit tasks concurrency events))
        \<union> set (finished (concurrentLimit tasks concurrency events))
       = set (results (concurrentLimit tasks concurrency events))
   \<and> set (executing (concurrentLimit tasks concurrency events))
        \<inter> set (finished (concurrentLimit tasks concurrency events)) = {}
   \<and> results (concurrentLimit tasks concurrency events)
       = [0..<length (results (concurrentLimit tasks concurrency events))]
   \<and> length (results (concurrentLimit tasks concurrency events)) \<le> length tasks
   \<and> (effective_limit concurrency = 1 \<longrightarrow>
        set (executing (concurrentLimit tasks concurrency events))
          \<subseteq> {length (results (concurrentLimit tasks concurrency events)) - 1})
   \<and> (\<forall>vs. phase (concurrentLimit tasks concurrency events) = Done (AllFulfilled vs)
          \<longrightarrow> tasks = map Inr vs)
   \<and> (\<forall>e. phase (concurrentLimit tasks concurrency events) = Done (RejectedBy e)
          \<longrightarrow> (\<exists>i. i \<in> set (finished (concurrentLimit tasks concurrency events))
                 \<and> tasks ! i = Inl e))
   \<and> (\<exists>more r. phase (concurrentLimit tasks concurrency (events @ more)) = Done r)
   \<and> (\<forall>vs. tasks = map Inr vs \<longrightarrow>
          (\<exists>more. phase (concurrentLimit tasks concurrency (events @ more))
             = Done (AllFulfilled vs)))
   \<and> (\<forall>r more. phase (concurrentLimit tasks concurrency events) = Done r
          \<longrightarrow> phase (concurrentLimit tasks concurrency (events @ more)) = Done r
              \<and> results (concurrentLimit tasks concurrency (events @ more))
                  = results (concurrentLimit tasks concurrency events))"
proof -
  let ?c = "effective_limit concurrency"
  let ?S = "concurrentLimit tasks concurrency events"
  have inv: "cl_inv tasks ?c (concurrentLimit tasks concurrency evs)" for evs
    by (rule concurrentLimit_inv)
  have app: "concurrentLimit tasks concurrency (events @ more)
               = foldl (cl_step tasks ?c) ?S more" for more
    by (simp add: concurrentLimit_def)
  from inv[of events] have b: "cl_base (length tasks) ?S" and l: "length (executing ?S) \<le> ?c"
    and s: "?c \<noteq> 1 \<or> set (executing ?S) \<subseteq> {length (results ?S) - 1}"
    and p: "cl_phase_ok tasks ?c ?S (phase ?S)"
    unfolding cl_inv_def by blast+
  from b have r: "results ?S = [0..<length (results ?S)]" and n: "length (results ?S) \<le> length tasks"
    and u: "set (executing ?S) \<union> set (finished ?S) = {0..<length (results ?S)}"
    and i: "set (executing ?S) \<inter> set (finished ?S) = {}"
    unfolding cl_base_def in_input_order_def by blast+
  have u': "set (executing ?S) \<union> set (finished ?S) = set (results ?S)"
    using u r by (metis atLeast_upt set_upt)
  have f: "tasks = map Inr vs" if "phase ?S = Done (AllFulfilled vs)" for vs
    using p that by simp
  have g: "\<exists>i. i \<in> set (finished ?S) \<and> tasks ! i = Inl e" if "phase ?S = Done (RejectedBy e)" for e
    using p that by simp
  from cl_completes[OF inv[of events]] obtain more
    where d: "is_done (phase (foldl (cl_step tasks ?c) ?S more))" by blast
  then obtain r0 where r0: "phase (foldl (cl_step tasks ?c) ?S more) = Done r0"
    by (cases "phase (foldl (cl_step tasks ?c) ?S more)") auto
  hence h: "\<exists>more r. phase (concurrentLimit tasks concurrency (events @ more)) = Done r"
    using app by metis
  have k: "\<exists>more. phase (concurrentLimit tasks concurrency (events @ more)) = Done (AllFulfilled vs)"
    if t: "tasks = map Inr vs" for vs
  proof (cases r0)
    case (AllFulfilled ws)
    from inv[of "events @ more"] r0 AllFulfilled have "tasks = map Inr ws"
      unfolding cl_inv_def app by simp
    with t have "ws = vs" by (simp add: inj_map_eq_map)
    with r0 AllFulfilled app show ?thesis by metis
  next
    case (RejectedBy e)
    from inv[of "events @ more"] r0 RejectedBy
    obtain j where j: "j \<in> set (finished (foldl (cl_step tasks ?c) ?S more))" "tasks ! j = Inl e"
      unfolding cl_inv_def app by auto
    from inv[of "events @ more"] have "cl_base (length tasks) (foldl (cl_step tasks ?c) ?S more)"
      unfolding cl_inv_def app by blast
    from cl_base_index[OF this] j(1) have "j < length tasks" by blast
    with t j(2) show ?thesis by simp
  qed
  have m: "phase (concurrentLimit tasks concurrency (events @ more)) = Done r
        \<and> results (concurrentLimit tasks concurrency (events @ more)) = results ?S"
    if "phase ?S = Done r" for r more
    unfolding app using cl_done_stays[OF that] cl_done_results[OF that] by blast
  from l u' i r n s f g h k m show ?thesis by blast
qed

theorem concurrentLimit_contract_witness:
  "phase (concurrentLimit three_tasks 2 [Settles 1, Resumes, Settles 2, Resumes, Settles 0])
     = Done (AllFulfilled [10, 20, 30])
   \<and> three_tasks = map Inr [10, 20, 30]
   \<and> length (executing (concurrentLimit three_tasks 2 [Settles 1, Resumes, Settles 2]))
        \<le> effective_limit 2"
proof -
  have h: "phase (concurrentLimit three_tasks 2 [Settles 1, Resumes, Settles 2, Resumes, Settles 0])
     = Done (AllFulfilled [10, 20, 30])"
    by code_simp
  from concurrentLimit_contract [of three_tasks 2 "[Settles 1, Resumes, Settles 2, Resumes, Settles 0]"] h
  have a: "three_tasks = map Inr [10, 20, 30]" by blast
  from concurrentLimit_contract [of three_tasks 2 "[Settles 1, Resumes, Settles 2]"]
  have b: "length (executing (concurrentLimit three_tasks 2 [Settles 1, Resumes, Settles 2]))
        \<le> effective_limit 2" by blast
  from h a b show ?thesis by blast
qed

text \<open>
  A failing task does not end in a result slot. With limit 1 the call rejects with the
  first task's error and the second task is never started; with limit 2, where the
  second task settles first, the call rejects all the same.
\<close>

theorem concurrentLimit_failure_counterexample:
  "phase (concurrentLimit failing_first 1 [Settles 0, Resumes, Settles 1, Resumes])
     = Done (RejectedBy ''boom'')
   \<and> results (concurrentLimit failing_first 1 [Settles 0, Resumes, Settles 1, Resumes]) = [0]
   \<and> phase (concurrentLimit failing_first 2 [Settles 1, Settles 0, Resumes])
     = Done (RejectedBy ''boom'')"
  by code_simp

section \<open>Checker aggregation\<close>

lemma processCheckResult_summary:
  "totalChecks (summary (processCheckResult res nm r)) = totalChecks (summary res)"
  "successRate (summary (processCheckResult res nm r)) = successRate (summary res)"
  "errors (summary (processCheckResult res nm r))
     = errors (summary res) + (if is_error_result r then 1 else 0)"
  "failed (summary (processCheckResult res nm r))
     = failed (summary res) + (if is_failed_result r then 1 else 0)"
  "passed (summary (processCheckResult res nm r))
     = passed (summary res) + (if is_passed_result r then 1 else 0)"
  by (simp_all add: processCheckResult_def Let_def is_error_result_def is_failed_result_def
      is_passed_result_def)

lemma foldl_processCheckResult_summary:
  "totalChecks (summary (foldl (\<lambda>res c. processCheckResult res (nm c) (f c)) res0 cs))
     = totalChecks (summary res0)
   \<and> successRate (summary (foldl (\<lambda>res c. processCheckResult res (nm c) (f c)) res0 cs))
     = successRate (summary res0)
   \<and> errors (summary (foldl (\<lambda>res c. processCheckResult res (nm c) (f c)) res0 cs))
     = errors (summary res0) + length (filter (\<lambda>c. is_error_result (f c)) cs)
   \<and> failed (summary (foldl (\<lambda>res c. processCheckResult res (nm c) (f c)) res0 cs))
     = failed (summary res0) + length (filter (\<lambda>c. is_failed_result (f c)) cs)
   \<and> passed (summary (foldl (\<lambda>res c. processCheckResult res (nm c) (f c)) res0 cs))
     = passed (summary res0) + length (filter (\<lambda>c. is_passed_result (f c)) cs)"
proof (induction cs arbitrary: res0)
  case Nil
  show ?case by simp
next
  case (Cons c cs)
  show ?case
    using Cons.IH[of "processCheckResult res0 (nm c) (f c)"]
    by (simp add: processCheckResult_summary)
qed

lemma foldl_by_index:
  "(\<forall>i<length xs. every ! i = xs ! i) \<Longrightarrow>
   foldl (\<lambda>res (result, index). processCheckResult res (nm (every ! index)) result) res0
     (zip (map f xs) [0..<length xs])
   = foldl (\<lambda>res c. processCheckResult res (nm c) (f c)) res0 xs"
proof (induction xs rule: rev_induct)
  case Nil
  show ?case by simp
next
  case (snoc x xs)
  have p: "\<forall>i<length xs. every ! i = xs ! i"
    using snoc.prems by (metis length_append_singleton less_Suc_eq nth_append)
  have l: "every ! length xs = x"
    using snoc.prems by (metis length_append_singleton lessI nth_append_length)
  have z: "zip (map f (xs @ [x])) [0..<length (xs @ [x])]
          = zip (map f xs) [0..<length xs] @ [(f x, length xs)]"
    by simp
  show ?case unfolding z using snoc.IH[OF p] l by simp
qed

lemma classes_partition:
  "length (filter (\<lambda>c. is_error_result (f c)) cs)
   + length (filter (\<lambda>c. is_failed_result (f c)) cs)
   + length (filter (\<lambda>c. is_passed_result (f c)) cs) = length cs"
  by (induction cs) (auto simp: is_error_result_def is_failed_result_def is_passed_result_def)

lemma length_filter_sort_key:
  "length (filter P (sort_key k xs)) = length (filter P xs)"
  by (simp add: filter_sort)

text \<open>The tasks handed to the runner never reject, so the runner returns their results.\<close>

lemma concurrentLimit_of_values:
  fixes vs :: "'a list" and e :: "'e"
  shows "phase (concurrentLimit (map Inr vs :: ('e + 'a) list) concurrency events)
           = Done (AllFulfilled ws) \<Longrightarrow> ws = vs"
    and "phase (concurrentLimit (map Inr vs :: ('e + 'a) list) concurrency events)
           \<noteq> Done (RejectedBy e)"
proof -
  let ?S = "concurrentLimit (map Inr vs :: ('e + 'a) list) concurrency events"
  note inv = concurrentLimit_inv[of "map Inr vs :: ('e + 'a) list" concurrency events]
  hence b: "cl_base (length (map Inr vs :: ('e + 'a) list)) ?S"
    and p: "cl_phase_ok (map Inr vs) (effective_limit concurrency) ?S (phase ?S)"
    unfolding cl_inv_def by blast+
  show "ws = vs" if "phase ?S = Done (AllFulfilled ws)"
    using p that by (simp add: inj_map_eq_map)
  show "phase ?S \<noteq> Done (RejectedBy e)"
  proof
    assume "phase ?S = Done (RejectedBy e)"
    with p obtain i where i: "i \<in> set (finished ?S)" "map Inr vs ! i = (Inl e :: 'e + 'a)" by auto
    from cl_base_index[OF b] i(1) have "i < length vs" by fastforce
    with i(2) show False by simp
  qed
qed

lemma concurrentLimit_extends:
  "\<exists>more r. phase (concurrentLimit tasks concurrency (events @ more)) = Done r"
proof -
  from cl_completes[OF concurrentLimit_inv[of tasks concurrency events]] obtain more
    where "is_done (phase (foldl (cl_step tasks (effective_limit concurrency))
             (concurrentLimit tasks concurrency events) more))" by blast
  hence "is_done (phase (concurrentLimit tasks concurrency (events @ more)))"
    by (simp add: concurrentLimit_def)
  thus ?thesis by (cases "phase (concurrentLimit tasks concurrency (events @ more))") auto
qed

lemma runAllChecks_cases:
  "runAllChecks cs mc evs page = Returned (sequential_checks cs page)
   \<or> runAllChecks cs mc evs page = Unfinished"
proof -
  let ?sorted = "sort_key getPriority cs"
  let ?c = "if mc = 0 then 3 else mc"
  let ?tasks = "map (\<lambda>c. Inr (runSingleCheck c page) :: string + check_result) ?sorted"
  let ?vs = "map (\<lambda>c. runSingleCheck c page) ?sorted"
  have t: "?tasks = map Inr ?vs" by simp
  show ?thesis
  proof (cases "?c > 1")
    case False
    thus ?thesis by (simp add: runAllChecks_def sequential_checks_def Let_def)
  next
    case True
    show ?thesis
    proof (cases "phase (concurrentLimit ?tasks ?c evs)")
      case (Done r)
      show ?thesis
      proof (cases r)
        case (RejectedBy e)
        with Done concurrentLimit_of_values(2)[of ?vs ?c evs e] t show ?thesis by simp
      next
        case (AllFulfilled ws)
        with Done concurrentLimit_of_values(1)[of ?vs ?c evs ws] t have ws: "ws = ?vs" by simp
        have "foldl (\<lambda>res (result, index).
                     processCheckResult res (checker_name (?sorted ! index)) result) r0
                (zip ?vs [0..<length ?sorted])
              = foldl (\<lambda>res c. processCheckResult res (checker_name c) (runSingleCheck c page)) r0 ?sorted"
          for r0
          by (rule foldl_by_index) simp
        with True Done AllFulfilled ws show ?thesis
          by (simp add: runAllChecks_def sequential_checks_def Let_def)
      qed
    qed (use True in \<open>simp_all add: runAllChecks_def Let_def\<close>)
  qed
qed


lemma sequential_checks_summary:
  "totalChecks (summary (sequential_checks cs page)) = length cs"
  "errors (summary (sequential_checks cs page))
     = length (filter (\<lambda>c. is_error_result (runSingleCheck c page)) cs)"
  "failed (summary (sequential_checks cs page))
     = length (filter (\<lambda>c. is_failed_result (runSingleCheck c page)) cs)"
  "passed (summary (sequential_checks cs page))
     = length (filter (\<lambda>c. is_passed_result (runSingleCheck c page)) cs)"
  "successRate (summary (sequential_checks cs page))
     = (if length cs > 0
        then round (real (length (filter (\<lambda>c. is_passed_result (runSingleCheck c page)) cs))
                    / real (length cs) * 100)
        else 0)"
  unfolding sequential_checks_def final_summary_def
  using foldl_processCheckResult_summary[of checker_name "\<lambda>c. runSingleCheck c page"
      "\<lparr>checks_pageName = page, checks = Map.empty,
        summary = \<lparr>totalChecks = length cs, passed = 0, failed = 0, errors = 0,
                   successRate = 0\<rparr>\<rparr>" "sort_key getPriority cs"]
  by (simp_all add: length_filter_sort_key)


text \<open>
  The aggregation law of \<open>runAllChecks\<close>: whenever it returns, the three counters count
  the three classes of results, they add up to \<open>totalChecks\<close>, and the success rate is
  the rounded share of passes. It never throws, and every run can be completed.
\<close>

lemma runAllChecks_summary:
  assumes "runAllChecks cs mc evs page = Returned r"
  shows "totalChecks (summary r) = length cs"
    and "errors (summary r) = length (filter (\<lambda>c. is_error_result (runSingleCheck c page)) cs)"
    and "failed (summary r) = length (filter (\<lambda>c. is_failed_result (runSingleCheck c page)) cs)"
    and "passed (summary r) = length (filter (\<lambda>c. is_passed_result (runSingleCheck c page)) cs)"
    and "errors (summary r) + failed (summary r) + passed (summary r) = totalChecks (summary r)"
    and "successRate (summary r)
          = (if totalChecks (summary r) > 0
             then round (real (passed (summary r)) / real (totalChecks (summary r)) * 100)
             else 0)"
proof -
  from assms runAllChecks_cases[of cs mc evs page] have r: "r = sequential_checks cs page"
    by auto
  show "totalChecks (summary r) = length cs"
    and "errors (summary r) = length (filter (\<lambda>c. is_error_result (runSingleCheck c page)) cs)"
    and "failed (summary r) = length (filter (\<lambda>c. is_failed_result (runSingleCheck c page)) cs)"
    and "passed (summary r) = length (filter (\<lambda>c. is_passed_result (runSingleCheck c page)) cs)"
    unfolding r by (simp_all add: sequential_checks_summary)
  show "errors (summary r) + failed (summary r) + passed (summary r) = totalChecks (summary r)"
    unfolding r using classes_partition[of "\<lambda>c. runSingleCheck c page" cs]
    by (simp add: sequential_checks_summary)
  show "successRate (summary r)
          = (if totalChecks (summary r) > 0
             then round (real (passed (summary r)) / real (totalChecks (summary r)) * 100)
             else 0)"
    unfolding r by (simp add: sequential_checks_summary)
qed

lemma runAllChecks_returns:
  "runAllChecks cs mc evs page \<noteq> Threw e"
  "\<exists>more. runAllChecks cs mc (evs @ more) page = Returned (sequential_checks cs page)"
  "(if mc = 0 then 3 else mc) \<le> 1 \<Longrightarrow>
     runAllChecks cs mc evs page = Returned (sequential_checks cs page)"
proof -
  show "runAllChecks cs mc evs page \<noteq> Threw e"
    using runAllChecks_cases[of cs mc evs page] by auto
  show "runAllChecks cs mc evs page = Returned (sequential_checks cs page)"
    if "(if mc = 0 then 3 else mc) \<le> 1"
    using that by (simp add: runAllChecks_def sequential_checks_def Let_def)
  let ?tasks = "map (\<lambda>c. Inr (runSingleCheck c page) :: string + check_result)
                  (sort_key getPriority cs)"
  let ?c = "if mc = 0 then 3 else mc"
  show "\<exists>more. runAllChecks cs mc (evs @ more) page = Returned (sequential_checks cs page)"
  proof (cases "?c > 1")
    case False
    thus ?thesis by (simp add: runAllChecks_def sequential_checks_def Let_def)
  next
    case True
    from concurrentLimit_extends[of ?tasks ?c evs] obtain more r0
      where d: "phase (concurrentLimit ?tasks ?c (evs @ more)) = Done r0" by blast
    have "runAllChecks cs mc (evs @ more) page \<noteq> Unfinished"
      using True d by (cases r0) (simp_all add: runAllChecks_def Let_def)
    with runAllChecks_cases[of cs mc "evs @ more" page] show ?thesis by blast
  qed
qed






section \<open>Results of BaseChecker.run\<close>

lemma BaseChecker_run_returned:
  "executeCheck page = Inr res \<Longrightarrow>
   \<exists>r. BaseChecker_run n executeCheck page = Inr r
       \<and> success r = Some (\<not> truthy (error res)) \<and> error r = error res
       \<and> checker r = n \<and> pageName r = page"
  by (simp add: BaseChecker_run_def)

lemma BaseChecker_run_thrown:
  "executeCheck page = Inl m \<Longrightarrow>
   BaseChecker_run n executeCheck page
     = Inr \<lparr>checker = n, pageName = page, success = Some False, error = Some m\<rparr>"
  by (simp add: BaseChecker_run_def)

text \<open>
  A result of \<open>BaseChecker.run\<close> is never a logical failure unless the check threw an
  error with an empty message; that case is the only one.
\<close>

lemma base_checker_failed_iff:
  "is_failed_result (runSingleCheck (base_checker n p executeCheck) page)
     \<longleftrightarrow> executeCheck page = Inl []"
  by (cases "executeCheck page")
     (auto simp: runSingleCheck_def base_checker_def BaseChecker_run_def is_failed_result_def)

lemma base_checkers_failed_count:
  assumes "runAllChecks (map (\<lambda>(n, p, ex). base_checker n p ex) specs) mc evs page = Returned r"
  shows "failed (summary r) = length (filter (\<lambda>(n, p, ex). ex page = Inl []) specs)"
proof -
  have "failed (summary r)
      = length (filter (\<lambda>c. is_failed_result (runSingleCheck c page))
          (map (\<lambda>(n, p, ex). base_checker n p ex) specs))"
    by (rule runAllChecks_summary(3)[OF assms])
  also have "\<dots> = length (filter (\<lambda>(n, p, ex). ex page = Inl []) specs)"
    by (induction specs) (auto simp: base_checker_failed_iff)
  finally show ?thesis .
qed

text \<open>
  Claim C10 at the failing input. The check of a \<open>BaseChecker\<close> subclass throws an
  error with an empty message: \<open>run\<close> returns \<open>success = false\<close> with the falsy error
  \<open>''\<close>, and the page summary counts the result under \<open>failed\<close>, not under \<open>errors\<close>.
\<close>

theorem BaseChecker_empty_message_failed:
  "run empty_message_checker ''home''
     = Inr \<lparr>checker = ''ZoomChecker'', pageName = ''home'', success = Some False,
            error = Some []\<rparr>
   \<and> truthy (Some []) = False
   \<and> runAllChecks [empty_message_checker] 1 [] ''home''
       = Returned (sequential_checks [empty_message_checker] ''home'')
   \<and> failed (summary (sequential_checks [empty_message_checker] ''home'')) = 1
   \<and> errors (summary (sequential_checks [empty_message_checker] ''home'')) = 0"
proof -
  have a: "run empty_message_checker ''home''
     = Inr \<lparr>checker = ''ZoomChecker'', pageName = ''home'', success = Some False,
            error = Some []\<rparr>"
    by (simp add: empty_message_checker_def base_checker_def BaseChecker_run_def)
  have b: "runAllChecks [empty_message_checker] 1 [] ''home''
       = Returned (sequential_checks [empty_message_checker] ''home'')"
    by (rule runAllChecks_returns(3)) simp
  have c: "failed (summary (sequential_checks [empty_message_checker] ''home'')) = 1
     \<and> errors (summary (sequential_checks [empty_message_checker] ''home'')) = 0"
    using a by (simp add: sequential_checks_summary runSingleCheck_def is_failed_result_def
        is_error_result_def)
  from a b c show ?thesis by simp
qed

theorem BaseChecker_empty_message_failed_witness:
  "failed (summary (sequential_checks [empty_message_checker] ''home'')) = 1"
  using BaseChecker_empty_message_failed by blast

section \<open>Landmark scoring\<close>

lemma calculateLandmarkScore_formula:
  "calculateLandmarkScore ls ms is =
     max 0 (min 100 (100 - 20 * int (length ms) - 10 * int (length is)
                      + (if length ls \<ge> 3 then 10 else 0)))"
  by (simp add: calculateLandmarkScore_def Let_def mult.commute)

lemma checkLandmarks_score:
  "score (checkLandmarks t) =
     calculateLandmarkScore (present (checkLandmarks t)) (missing (checkLandmarks t))
       (issues (checkLandmarks t))"
  by (simp add: checkLandmarks_def Let_def)

lemma checkLandmarks_missing:
  "missing (checkLandmarks t) =
     filter (\<lambda>r. r \<notin> set (map role (present (checkLandmarks t)))) requiredLandmarks"
  by (simp add: checkLandmarks_def Let_def)

lemma distinct_requiredLandmarks: "distinct requiredLandmarks"
  by (simp add: requiredLandmarks_def)

lemma length_requiredLandmarks: "length requiredLandmarks = 5"
  by (simp add: requiredLandmarks_def)

lemma present_required_card:
  assumes a: "length (filter (\<lambda>r. r \<notin> A) requiredLandmarks) = k"
  shows "card (set requiredLandmarks \<inter> A) = 5 - k"
proof -
  have "length (filter (\<lambda>r. r \<in> A) requiredLandmarks)
        + length (filter (\<lambda>r. r \<notin> A) requiredLandmarks) = 5"
    using sum_length_filter_compl[of "\<lambda>r. r \<in> A" requiredLandmarks]
    by (simp add: length_requiredLandmarks)
  hence l: "length (filter (\<lambda>r. r \<in> A) requiredLandmarks) = 5 - k" using a by simp
  have "distinct (filter (\<lambda>r. r \<in> A) requiredLandmarks)"
    using distinct_requiredLandmarks by simp
  hence "card (set (filter (\<lambda>r. r \<in> A) requiredLandmarks)) = 5 - k"
    using l distinct_card by fastforce
  moreover have "set (filter (\<lambda>r. r \<in> A) requiredLandmarks) = set requiredLandmarks \<inter> A"
    by auto
  ultimately show ?thesis by simp
qed

text \<open>
  The required roles that are not missing are all present, and they are distinct: a page
  missing \<open>k\<close> required landmarks has at least \<open>5 - k\<close> landmarks.
\<close>

lemma missing_bounds_present:
  assumes "length (filter (\<lambda>r. r \<notin> set (map role ls)) requiredLandmarks) = k"
  shows "5 - k \<le> length ls"
proof -
  have "card (set requiredLandmarks \<inter> set (map role ls)) = 5 - k"
    using present_required_card[OF assms] .
  moreover have "card (set requiredLandmarks \<inter> set (map role ls)) \<le> card (set (map role ls))"
    by (rule card_mono) auto
  moreover have "card (set (map role ls)) \<le> length (map role ls)" by (rule card_length)
  ultimately show ?thesis by simp
qed

text \<open>
  Claim C8, as the code has it. For every snapshot, the landmark score is 100, minus 20 per
  missing required landmark, minus 10 per landmark issue, plus 10 when at least three
  landmarks are present, clamped to the range 0 to 100. A page with all five required
  landmarks and no issues has at least three landmarks and scores 100. A page missing
  exactly two required landmarks, with no issues, still holds the other three, earns the
  bonus and scores 70 (not 60).
\<close>

theorem landmark_score:
  "score (checkLandmarks t) =
     max 0 (min 100 (100 - 20 * int (length (missing (checkLandmarks t)))
                         - 10 * int (length (issues (checkLandmarks t)))
                         + (if length (present (checkLandmarks t)) \<ge> 3 then 10 else 0)))
   \<and> (missing (checkLandmarks t) = [] \<and> issues (checkLandmarks t) = []
        \<longrightarrow> length (present (checkLandmarks t)) \<ge> 3 \<and> score (checkLandmarks t) = 100)
   \<and> (length (missing (checkLandmarks t)) = 2 \<and> issues (checkLandmarks t) = []
        \<longrightarrow> length (present (checkLandmarks t)) \<ge> 3 \<and> score (checkLandmarks t) = 70)"
proof -
  let ?r = "checkLandmarks t"
  have f: "score ?r = max 0 (min 100 (100 - 20 * int (length (missing ?r))
                         - 10 * int (length (issues ?r))
                         + (if length (present ?r) \<ge> 3 then 10 else 0)))"
    by (simp only: checkLandmarks_score calculateLandmarkScore_formula)
  have b: "5 - length (missing ?r) \<le> length (present ?r)"
    by (rule missing_bounds_present) (simp only: checkLandmarks_missing [symmetric])
  have c1: "length (present ?r) \<ge> 3 \<and> score ?r = 100"
    if "missing ?r = [] \<and> issues ?r = []"
  proof -
    from that b have "length (present ?r) \<ge> 3" by simp
    with that f show ?thesis by simp
  qed
  have c2: "length (present ?r) \<ge> 3 \<and> score ?r = 70"
    if "length (missing ?r) = 2 \<and> issues ?r = []"
  proof -
    from that b have "length (present ?r) \<ge> 3" by simp
    with that f show ?thesis by simp
  qed
  from f c1 c2 show ?thesis by blast
qed

theorem landmark_score_witness:
  "length (missing (checkLandmarks (Some three_landmark_page))) = 2
   \<and> issues (checkLandmarks (Some three_landmark_page)) = []
   \<and> length (present (checkLandmarks (Some three_landmark_page))) \<ge> 3
   \<and> score (checkLandmarks (Some three_landmark_page)) = 70"
proof -
  have h: "length (missing (checkLandmarks (Some three_landmark_page))) = 2
           \<and> issues (checkLandmarks (Some three_landmark_page)) = []"
    by code_simp
  from landmark_score [of "Some three_landmark_page"]
  have "length (missing (checkLandmarks (Some three_landmark_page))) = 2
        \<and> issues (checkLandmarks (Some three_landmark_page)) = []
        \<longrightarrow> length (present (checkLandmarks (Some three_landmark_page))) \<ge> 3
            \<and> score (checkLandmarks (Some three_landmark_page)) = 70"
    by blast
  with h show ?thesis by blast
qed

text \<open>
  The spec's example fails: this page misses exactly two required landmarks
  (complementary and contentinfo), has no landmark issue, and does not score 60.
\<close>

theorem landmark_score_two_missing_counterexample:
  "missing (checkLandmarks (Some three_landmark_page)) = [''complementary'', ''contentinfo'']
   \<and> issues (checkLandmarks (Some three_landmark_page)) = []
   \<and> score (checkLandmarks (Some three_landmark_page)) \<noteq> 60"
  by code_simp

section \<open>Zoom checker\<close>



















section \<open>Scanner fallback\<close>




section \<open>Pages and result lists\<close>

lemma runAxeScan_returns: "\<exists>r. runAxeScan modern legacy page = Inr r"
  by (simp add: runAxeScan_def split: sum.splits)

lemma logError_fields [simp]:
  "axeResults (logError ph m pg sel tr) = axeResults tr"
  "extraResults (logError ph m pg sel tr) = extraResults tr"
  "tr_errors (logError ph m pg sel tr)
     = tr_errors tr @ [\<lparr>err_phase = ph, err_message = m, err_page = pg, err_selector = sel\<rparr>]"
  "tr_warnings (logError ph m pg sel tr) = tr_warnings tr"
  "screenshots (logError ph m pg sel tr) = screenshots tr"
  by (simp_all add: logError_def)

lemma navigateToPage_fields [simp]:
  "axeResults (snd (navigateToPage env pg tr)) = axeResults tr"
  "extraResults (snd (navigateToPage env pg tr)) = extraResults tr"
  "tr_errors (snd (navigateToPage env pg tr)) = tr_errors tr"
  "fst (navigateToPage env pg tr)
     = (case navigation_throws env of None \<Rightarrow> Inr () | Some m \<Rightarrow> Inl m)"
  by (simp_all add: navigateToPage_def split: option.splits)

lemma processPage_navigation_fails:
  assumes "navigation_throws env = Some m"
  shows "fst (processPage env pg tr) = Inl m"
    and "axeResults (snd (processPage env pg tr)) = axeResults tr"
    and "extraResults (snd (processPage env pg tr)) = extraResults tr"
    and "tr_errors (snd (processPage env pg tr))
          = tr_errors tr @ [\<lparr>err_phase = ''page_processing'', err_message = m,
                              err_page = Some (page_name pg),
                              err_selector = Some (page_selector pg)\<rparr>]"
  using assms
  by (simp_all add: processPage_def navigateToPage_def Let_def split: option.splits)

lemma processPage_scanned:
  assumes "navigation_throws env = None" "extraChecks env = Inr x"
  shows "fst (processPage env pg tr) = Inr ()"
    and "\<exists>r. axeResults (snd (processPage env pg tr)) = axeResults tr @ [r]"
    and "extraResults (snd (processPage env pg tr)) = extraResults tr @ [x]"
    and "tr_errors (snd (processPage env pg tr)) = tr_errors tr"
proof -
  obtain r where r: "runAxeScan (modernScan env) (legacyScan env) (page_name pg) = Inr r"
    using runAxeScan_returns by blast
  show "fst (processPage env pg tr) = Inr ()"
    using assms r by (simp add: processPage_def navigateToPage_def Let_def)
  have "axeResults (snd (processPage env pg tr)) = axeResults tr @ [r]"
    using assms r by (simp add: processPage_def navigateToPage_def Let_def)
  thus "\<exists>r. axeResults (snd (processPage env pg tr)) = axeResults tr @ [r]" by blast
  show "extraResults (snd (processPage env pg tr)) = extraResults tr @ [x]"
    using assms r by (simp add: processPage_def navigateToPage_def Let_def)
  show "tr_errors (snd (processPage env pg tr)) = tr_errors tr"
    using assms r by (simp add: processPage_def navigateToPage_def Let_def)
qed











section \<open>The suite\<close>

lemma late_phases:
  "axeResults (cleanupPhase env (reportingPhase env tr)) = axeResults tr"
  "\<exists>more. tr_errors (cleanupPhase env (reportingPhase env tr)) = tr_errors tr @ more
          \<and> list_all (\<lambda>e. err_page e = None) more"
  by (auto simp: cleanupPhase_def reportingPhase_def split: option.splits sum.splits prod.splits)

lemma runTestSuite_guard:
  "isRunning eng \<Longrightarrow> fst (runTestSuite env opts eng) = Inl ''Test suite is already running''"
  by (simp add: runTestSuite_def)

lemma runTestSuite_result:
  assumes "\<not> isRunning eng"
  shows "\<exists>tr. runTestSuite env opts eng = (Inr tr, \<lparr>testResults = tr, isRunning = False\<rparr>)
           \<and> tr_success tr = Some (tr_errors tr = [])"
proof -
  obtain o1 tr1 where s1: "setupPhase env (testResults eng) = (o1, tr1)"
    by (cases "setupPhase env (testResults eng)")
  obtain o2 tr2 where s2: "scanningPhase env opts tr1 = (o2, tr2)"
    by (cases "scanningPhase env opts tr1")
  show ?thesis
  proof (cases o1)
    case (Inl m)
    with assms s1 show ?thesis by (simp add: runTestSuite_def Let_def)
  next
    case (Inr u)
    show ?thesis
    proof (cases o2)
      case (Inl m)
      with assms s1 s2 Inr show ?thesis by (simp add: runTestSuite_def Let_def)
    next
      case r2: (Inr u')
      with assms s1 s2 Inr show ?thesis by (simp add: runTestSuite_def Let_def)
    qed
  qed
qed

lemma two_pages_scanned:
  assumes a: "navigation_throws (envs (page_name pA)) = None"
      "extraChecks (envs (page_name pA)) = Inr x"
    and b: "navigation_throws (envs (page_name pB)) = Some m"
  shows "\<exists>tr'. scan_sequential envs True [pA, pB] tr = (Inr (), tr')
          \<and> scan_concurrent envs [pA, pB] tr = tr'
          \<and> (\<exists>r. axeResults tr' = axeResults tr @ [r])
          \<and> tr_errors tr' = tr_errors tr @
                [\<lparr>err_phase = ''page_processing'', err_message = m,
                  err_page = Some (page_name pB), err_selector = Some (page_selector pB)\<rparr>,
                 \<lparr>err_phase = ''page_scan'', err_message = m,
                  err_page = Some (page_name pB), err_selector = None\<rparr>]"
proof -
  let ?eA = "envs (page_name pA)" and ?eB = "envs (page_name pB)"
  obtain trA where pa: "processPage ?eA pA tr = (Inr (), trA)"
    using processPage_scanned(1)[OF a, of pA tr] by (cases "processPage ?eA pA tr") auto
  have A: "\<exists>r. axeResults trA = axeResults tr @ [r]" "tr_errors trA = tr_errors tr"
    using processPage_scanned(2,4)[OF a, of pA tr] pa by simp_all
  obtain trB where pb: "processPage ?eB pB trA = (Inl m, trB)"
    using processPage_navigation_fails(1)[OF b, of pB trA] by (cases "processPage ?eB pB trA") auto
  have B: "axeResults trB = axeResults trA"
    "tr_errors trB = tr_errors trA @ [\<lparr>err_phase = ''page_processing'', err_message = m,
                  err_page = Some (page_name pB), err_selector = Some (page_selector pB)\<rparr>]"
    using processPage_navigation_fails(2,4)[OF b, of pB trA] pb by simp_all
  let ?tr' = "logError ''page_scan'' m (Some (page_name pB)) None trB"
  have "scan_sequential envs True [pA, pB] tr = (Inr (), ?tr')"
    using pa pb by (simp add: Let_def)
  moreover have "scan_concurrent envs [pA, pB] tr = ?tr'"
    using pa pb by simp
  moreover have "\<exists>r. axeResults ?tr' = axeResults tr @ [r]" using A B by simp
  moreover have "tr_errors ?tr' = tr_errors tr @
                [\<lparr>err_phase = ''page_processing'', err_message = m,
                  err_page = Some (page_name pB), err_selector = Some (page_selector pB)\<rparr>,
                 \<lparr>err_phase = ''page_scan'', err_message = m,
                  err_page = Some (page_name pB), err_selector = None\<rparr>]"
    using A B by simp
  ultimately show ?thesis by blast
qed

lemma two_page_run:
  assumes idle: "\<not> isRunning eng"
    and empty: "axeResults (testResults eng) = []" "tr_errors (testResults eng) = []"
    and ready: "validation_ok env" "cleanupProcesses_throws env = None" "launchApp_throws env = None"
      "getMainWindow_throws env = None"
    and pgs: "pagesToScan env = [pA, pB]"
    and a: "navigation_throws (page_envs env (page_name pA)) = None"
      "extraChecks (page_envs env (page_name pA)) = Inr x"
    and b: "navigation_throws (page_envs env (page_name pB)) = Some m"
    and coe: "continueOnError_option opts"
  shows "\<exists>tr. fst (runTestSuite env opts eng) = Inr tr
          \<and> length (axeResults tr) = 1
          \<and> filter (\<lambda>e. err_page e = Some (page_name pB)) (tr_errors tr)
              = [\<lparr>err_phase = ''page_processing'', err_message = m,
                   err_page = Some (page_name pB), err_selector = Some (page_selector pB)\<rparr>,
                 \<lparr>err_phase = ''page_scan'', err_message = m,
                   err_page = Some (page_name pB), err_selector = None\<rparr>]
          \<and> length (tr_errors tr) \<ge> 2
          \<and> tr_success tr = Some False"
proof -
  let ?tr0 = "testResults eng"
  have s1: "setupPhase env ?tr0 = (Inr (), ?tr0)"
    using ready by (simp add: setupPhase_def)
  from two_pages_scanned[OF a b, of ?tr0] obtain tr' r
    where sc: "scan_sequential (page_envs env) True [pA, pB] ?tr0 = (Inr (), tr')"
      "scan_concurrent (page_envs env) [pA, pB] ?tr0 = tr'"
      and ax: "axeResults tr' = [r]"
      and er: "tr_errors tr' =
                [\<lparr>err_phase = ''page_processing'', err_message = m,
                  err_page = Some (page_name pB), err_selector = Some (page_selector pB)\<rparr>,
                 \<lparr>err_phase = ''page_scan'', err_message = m,
                  err_page = Some (page_name pB), err_selector = None\<rparr>]"
    using empty by auto
  have s2: "scanningPhase env opts ?tr0 = (Inr (), tr')"
    using ready pgs coe sc by (simp add: scanningPhase_def Let_def)
  let ?tr4 = "cleanupPhase env (reportingPhase env tr')"
  from late_phases(2)[of env tr'] obtain more
    where more: "tr_errors ?tr4 = tr_errors tr' @ more" "list_all (\<lambda>e. err_page e = None) more"
    by blast
  have f: "filter (\<lambda>e. err_page e = Some (page_name pB)) more = []"
    using more(2) by (induction more) auto
  have run: "fst (runTestSuite env opts eng) = Inr (?tr4\<lparr>tr_success := Some (tr_errors ?tr4 = [])\<rparr>)"
    using idle s1 s2 by (simp add: runTestSuite_def Let_def)
  have 1: "length (axeResults (?tr4\<lparr>tr_success := Some (tr_errors ?tr4 = [])\<rparr>)) = 1"
    using late_phases(1)[of env tr'] ax by simp
  have 2: "filter (\<lambda>e. err_page e = Some (page_name pB))
             (tr_errors (?tr4\<lparr>tr_success := Some (tr_errors ?tr4 = [])\<rparr>))
           = [\<lparr>err_phase = ''page_processing'', err_message = m,
                   err_page = Some (page_name pB), err_selector = Some (page_selector pB)\<rparr>,
                 \<lparr>err_phase = ''page_scan'', err_message = m,
                   err_page = Some (page_name pB), err_selector = None\<rparr>]"
    using more(1) er f by simp
  have 3: "length (tr_errors (?tr4\<lparr>tr_success := Some (tr_errors ?tr4 = [])\<rparr>)) \<ge> 2"
    using more(1) er by simp
  have 4: "tr_success (?tr4\<lparr>tr_success := Some (tr_errors ?tr4 = [])\<rparr>) = Some False"
    using more(1) er by simp
  from run 1 2 3 4 show ?thesis by blast
qed


text \<open>
  Claim C6, as the code has it. While another run is active on the engine,
  \<open>runTestSuite\<close> throws. Otherwise it returns the result object, whatever happens in
  the phases, with a boolean \<open>success\<close> that is true exactly when the errors list is
  empty, and it clears the running flag. In a two-page run on a fresh engine where page A
  reaches its scan and the navigation to page B throws, with \<open>continueOnError\<close>, the
  result has exactly one rule-engine result, \<open>success\<close> is false, and page B has exactly
  two error records: one of phase \<open>page_processing\<close> from \<open>processPage\<close>, then one of
  phase \<open>page_scan\<close> from the scanning loop.
\<close>

theorem runTestSuite_contract:
  "(isRunning eng \<longrightarrow> fst (runTestSuite env opts eng) = Inl ''Test suite is already running'')
   \<and> (\<not> isRunning eng \<longrightarrow>
        (\<exists>tr. runTestSuite env opts eng = (Inr tr, \<lparr>testResults = tr, isRunning = False\<rparr>)
            \<and> tr_success tr = Some (tr_errors tr = [])))
   \<and> (\<not> isRunning eng
        \<and> axeResults (testResults eng) = [] \<and> tr_errors (testResults eng) = []
        \<and> validation_ok env \<and> cleanupProcesses_throws env = None
        \<and> launchApp_throws env = None \<and> getMainWindow_throws env = None
        \<and> pagesToScan env = [pA, pB]
        \<and> navigation_throws (page_envs env (page_name pA)) = None
        \<and> extraChecks (page_envs env (page_name pA)) = Inr x
        \<and> navigation_throws (page_envs env (page_name pB)) = Some m
        \<and> continueOnError_option opts
      \<longrightarrow> (\<exists>tr. fst (runTestSuite env opts eng) = Inr tr
            \<and> length (axeResults tr) = 1
            \<and> filter (\<lambda>e. err_page e = Some (page_name pB)) (tr_errors tr)
                = [\<lparr>err_phase = ''page_processing'', err_message = m,
                     err_page = Some (page_name pB), err_selector = Some (page_selector pB)\<rparr>,
                   \<lparr>err_phase = ''page_scan'', err_message = m,
                     err_page = Some (page_name pB), err_selector = None\<rparr>]
            \<and> length (tr_errors tr) \<ge> 2
            \<and> tr_success tr = Some False))"
proof (intro conjI impI)
  assume "isRunning eng"
  thus "fst (runTestSuite env opts eng) = Inl ''Test suite is already running''"
    by (rule runTestSuite_guard)
next
  assume "\<not> isRunning eng"
  thus "\<exists>tr. runTestSuite env opts eng = (Inr tr, \<lparr>testResults = tr, isRunning = False\<rparr>)
            \<and> tr_success tr = Some (tr_errors tr = [])"
    by (rule runTestSuite_result)
next
  assume h: "\<not> isRunning eng
        \<and> axeResults (testResults eng) = [] \<and> tr_errors (testResults eng) = []
        \<and> validation_ok env \<and> cleanupProcesses_throws env = None
        \<and> launchApp_throws env = None \<and> getMainWindow_throws env = None
        \<and> pagesToScan env = [pA, pB]
        \<and> navigation_throws (page_envs env (page_name pA)) = None
        \<and> extraChecks (page_envs env (page_name pA)) = Inr x
        \<and> navigation_throws (page_envs env (page_name pB)) = Some m
        \<and> continueOnError_option opts"
  show "\<exists>tr. fst (runTestSuite env opts eng) = Inr tr
            \<and> length (axeResults tr) = 1
            \<and> filter (\<lambda>e. err_page e = Some (page_name pB)) (tr_errors tr)
                = [\<lparr>err_phase = ''page_processing'', err_message = m,
                     err_page = Some (page_name pB), err_selector = Some (page_selector pB)\<rparr>,
                   \<lparr>err_phase = ''page_scan'', err_message = m,
                     err_page = Some (page_name pB), err_selector = None\<rparr>]
            \<and> length (tr_errors tr) \<ge> 2
            \<and> tr_success tr = Some False"
  proof (rule two_page_run)
    from h show "\<not> isRunning eng" by simp
    from h show "axeResults (testResults eng) = []" by simp
    from h show "tr_errors (testResults eng) = []" by simp
    from h show "validation_ok env" by simp
    from h show "cleanupProcesses_throws env = None" by simp
    from h show "launchApp_throws env = None" by simp
    from h show "getMainWindow_throws env = None" by simp
    from h show "pagesToScan env = [pA, pB]" by simp
    from h show "navigation_throws (page_envs env (page_name pA)) = None" by simp
    from h show "extraChecks (page_envs env (page_name pA)) = Inr x" by simp
    from h show "navigation_throws (page_envs env (page_name pB)) = Some m" by simp
    from h show "continueOnError_option opts" by simp
  qed
qed

theorem runTestSuite_contract_witness:
  "\<exists>tr. fst (runTestSuite two_page_suite concurrent_continue fresh_engine) = Inr tr
        \<and> length (axeResults tr) = 1
        \<and> length (tr_errors tr) \<ge> 2
        \<and> tr_success tr = Some False"
proof -
  let ?pA = "\<lparr>page_name = ''A'', page_selector = ''#a''\<rparr>"
  let ?pB = "\<lparr>page_name = ''B'', page_selector = ''#b''\<rparr>"
  let ?x = "\<lparr>extra_pageName = ''A'', keyboardFocus_problems = 0, keyboardFocus_screenshots = []\<rparr>"
  have h: "\<not> isRunning fresh_engine
        \<and> axeResults (testResults fresh_engine) = [] \<and> tr_errors (testResults fresh_engine) = []
        \<and> validation_ok two_page_suite \<and> cleanupProcesses_throws two_page_suite = None
        \<and> launchApp_throws two_page_suite = None \<and> getMainWindow_throws two_page_suite = None
        \<and> pagesToScan two_page_suite = [?pA, ?pB]
        \<and> navigation_throws (page_envs two_page_suite (page_name ?pA)) = None
        \<and> extraChecks (page_envs two_page_suite (page_name ?pA)) = Inr ?x
        \<and> navigation_throws (page_envs two_page_suite (page_name ?pB)) = Some ''locator.click: Timeout''
        \<and> continueOnError_option concurrent_continue"
    by (simp add: fresh_engine_def two_page_suite_def two_page_env_def concurrent_continue_def)
  from runTestSuite_contract [of fresh_engine two_page_suite concurrent_continue ?pA ?pB ?x
      "''locator.click: Timeout''"] h
  show ?thesis by blast
qed

text \<open>
  The scenario yields two error records, not one: the page's error is logged by
  \<open>processPage\<close> and again by the scanning loop.
\<close>

theorem runTestSuite_two_errors_counterexample:
  "map err_phase (tr_errors (projr (fst (runTestSuite two_page_suite sequential_continue fresh_engine))))
     = [''page_processing'', ''page_scan'']
   \<and> map err_page (tr_errors (projr (fst (runTestSuite two_page_suite sequential_continue fresh_engine))))
     = [Some ''B'', Some ''B'']
   \<and> length (axeResults (projr (fst (runTestSuite two_page_suite sequential_continue fresh_engine)))) = 1
   \<and> map err_phase (tr_errors (projr (fst (runTestSuite two_page_suite concurrent_continue fresh_engine))))
     = [''page_processing'', ''page_scan'']"
  by (simp add: runTestSuite_def setupPhase_def scanningPhase_def reportingPhase_def
      cleanupPhase_def processPage_def navigateToPage_def runAxeScan_def modern_outcome_def
      logError_def two_page_suite_def two_page_env_def fresh_engine_def clean_scan_def
      sequential_continue_def concurrent_continue_def Let_def)

end
